theory Spec2Isabelle
  imports Main "HOL-Library.AList" "HOL-Library.Multiset"
begin

section \<open>Data model (TaskTree.mts)\<close>

text \<open>
  The records follow the TypeScript types of the widget. A field called \<open>id\<close> in the
  source is \<open>task_id\<close> / \<open>sec_id\<close> here (\<open>id\<close> is the identity function of HOL), and the
  fields of a section carry the prefix \<open>sec_\<close> where a task has a field of the same name.
  \<open>child_order\<close> and \<open>section_order\<close> are the integers Todoist sends.
\<close>

record TodoistTask =
  task_id :: string
  parent_id :: "string option"
  section_id :: "string option"
  child_order :: int
  content :: string
  updated_at :: string

record SectionRecord =
  sec_id :: string
  sec_name :: string
  section_order :: int
  sec_updated_at :: string

record TodoistProject =
  name :: string
  extra_fields :: "(string \<times> string) list"

record TodoistProjectResponse =
  resp_project :: "TodoistProject option"
  resp_sections :: "SectionRecord list option"
  resp_tasks :: "TodoistTask list option"

text \<open>
  The errors thrown: the three \<open>new Error(...)\<close> of the store, with the id they mention,
  the \<open>TypeError\<close> of the runtime when a property of \<open>undefined\<close> is read, and the
  \<open>SyntaxError\<close> of the DOM when \<open>querySelector\<close> is given a string that is not a selector.
  \<open>error_message\<close> is the \<open>message\<close> of the JavaScript error.
\<close>

datatype error =
  TaskAlreadyExists string | TaskNotFound string | SectionNotFound string | TypeError string
  | SyntaxError string

fun error_message :: "error \<Rightarrow> string" where
  "error_message (TaskAlreadyExists i) = ''Task with ID '' @ i @ '' already exists.''"
| "error_message (TaskNotFound i) = ''Task with ID '' @ i @ '' does not exist.''"
| "error_message (SectionNotFound i) = ''Section with ID '' @ i @ '' does not exist.''"
| "error_message (TypeError m) = m"
| "error_message (SyntaxError m) = m"

text \<open>A call either returns a value or throws; the store after the call is given beside it.\<close>

datatype 'a outcome = Returned 'a | Threw error

subsection \<open>JavaScript \<open>Map\<close> keyed by the record's own id\<close>

text \<open>
  Both maps of the store are only ever written as \<open>map.set(x.id, x)\<close>, so a map is the list
  of its values in insertion order and the key of a value is read off the value.
  \<open>Map_set\<close> overwrites in place when the key is present and appends otherwise, as
  \<open>Map.prototype.set\<close> does; \<open>Map_delete\<close> removes the key.
\<close>

definition Map_get :: "('a \<Rightarrow> string) \<Rightarrow> 'a list \<Rightarrow> string \<Rightarrow> 'a option" where
  "Map_get key m k = find (\<lambda>v. key v = k) m"

definition Map_has :: "('a \<Rightarrow> string) \<Rightarrow> 'a list \<Rightarrow> string \<Rightarrow> bool" where
  "Map_has key m k = (Map_get key m k \<noteq> None)"

fun Map_set :: "('a \<Rightarrow> string) \<Rightarrow> 'a \<Rightarrow> 'a list \<Rightarrow> 'a list" where
  "Map_set key v [] = [v]"
| "Map_set key v (x # xs) = (if key x = key v then v # xs else x # Map_set key v xs)"

definition Map_delete :: "('a \<Rightarrow> string) \<Rightarrow> string \<Rightarrow> 'a list \<Rightarrow> 'a list" where
  "Map_delete key k m = filter (\<lambda>v. key v \<noteq> k) m"

text \<open>
  JavaScript truthiness of a \<open>string | null\<close>: \<open>null\<close> and the empty string are falsy.
\<close>

definition truthy :: "string option \<Rightarrow> bool" where
  "truthy s = (case s of None \<Rightarrow> False | Some v \<Rightarrow> v \<noteq> [])"

section \<open>TaskStore\<close>

record TaskStore =
  project :: "TodoistProject option"
  sections :: "SectionRecord list"
  tasks :: "TodoistTask list"

definition empty_store :: TaskStore where
  "empty_store = \<lparr>project = None, sections = [], tasks = []\<rparr>"

text \<open>
  \<open>Date.parse\<close> is the host's: it is a parameter \<open>parse\<close> of every function that reaches
  it, \<open>None\<close> standing for \<open>NaN\<close> and \<open>Some n\<close> for the milliseconds since the epoch.
\<close>

definition isStale :: "(string \<Rightarrow> int option) \<Rightarrow> string \<Rightarrow> string \<Rightarrow> bool" where
  "isStale parse incoming current =
     (let incomingTime = parse incoming; currentTime = parse current in
      case (incomingTime, currentTime) of
        (Some i, Some c) \<Rightarrow> i < c
      | _ \<Rightarrow> False)"

definition organize :: "TodoistProjectResponse \<Rightarrow> TaskStore \<Rightarrow> TaskStore" where
  "organize data st =
     \<lparr>project = resp_project data,
      sections = fold (Map_set sec_id) (case resp_sections data of None \<Rightarrow> [] | Some ss \<Rightarrow> ss) [],
      tasks = fold (Map_set task_id) (case resp_tasks data of None \<Rightarrow> [] | Some ts \<Rightarrow> ts) []\<rparr>"

definition updateTask ::
  "(string \<Rightarrow> int option) \<Rightarrow> TodoistTask \<Rightarrow> TaskStore \<Rightarrow> unit outcome \<times> TaskStore" where
  "updateTask parse updatedTask st =
     (case Map_get task_id (tasks st) (task_id updatedTask) of
        None \<Rightarrow> (Threw (TaskNotFound (task_id updatedTask)), st)
      | Some existing \<Rightarrow>
          if isStale parse (updated_at updatedTask) (updated_at existing)
          then (Returned (), st)
          else (Returned (), st\<lparr>tasks := Map_set task_id updatedTask (tasks st)\<rparr>))"

definition addTask :: "TodoistTask \<Rightarrow> TaskStore \<Rightarrow> unit outcome \<times> TaskStore" where
  "addTask task st =
     (if Map_has task_id (tasks st) (task_id task)
      then (Threw (TaskAlreadyExists (task_id task)), st)
      else (Returned (), st\<lparr>tasks := Map_set task_id task (tasks st)\<rparr>))"

definition addSection :: "SectionRecord \<Rightarrow> TaskStore \<Rightarrow> unit outcome \<times> TaskStore" where
  "addSection section st =
     (Returned (), st\<lparr>sections := Map_set sec_id section (sections st)\<rparr>)"

text \<open>\<open>updateSection\<close> returns \<open>{ skipped }\<close>: the returned value is that flag.\<close>

definition updateSection ::
  "(string \<Rightarrow> int option) \<Rightarrow> SectionRecord \<Rightarrow> TaskStore \<Rightarrow> bool outcome \<times> TaskStore" where
  "updateSection parse section st =
     (case Map_get sec_id (sections st) (sec_id section) of
        None \<Rightarrow> (Threw (SectionNotFound (sec_id section)), st)
      | Some existing \<Rightarrow>
          if isStale parse (sec_updated_at section) (sec_updated_at existing)
          then (Returned True, st)
          else (Returned False, st\<lparr>sections := Map_set sec_id section (sections st)\<rparr>))"

text \<open>
  The loop of \<open>removeTask\<close>: \<open>queue.shift()\<close>, \<open>tasks.delete(current)\<close>, then every task
  still stored whose \<open>parent_id\<close> is \<open>current\<close> is pushed, in the map's order.
\<close>

function removeTask_loop :: "string list \<Rightarrow> TodoistTask list \<Rightarrow> TodoistTask list" where
  "removeTask_loop [] ts = ts"
| "removeTask_loop (current # queue) ts =
     (let ts' = Map_delete task_id current ts in
      removeTask_loop
        (queue @ map task_id (filter (\<lambda>task. parent_id task = Some current) ts')) ts')"
  by pat_completeness auto

lemma length_Map_delete_less:
  "k \<in> key ` set m \<Longrightarrow> length (Map_delete key k m) < length m"
  unfolding Map_delete_def by (auto intro: length_filter_less)

lemma Map_delete_absent: "k \<notin> key ` set m \<Longrightarrow> Map_delete key k m = m"
  unfolding Map_delete_def by (induction m) auto

text \<open>
  The loop ends on every input: a step either deletes a stored task, or pops an id that
  is not stored and pushes only ids that are.
\<close>

termination removeTask_loop
proof (relation "measures [\<lambda>(q, ts). length ts,
          \<lambda>(q, ts). length (filter (\<lambda>x. x \<notin> task_id ` set ts) q)]", goal_cases)
  case 1
  then show ?case by simp
next
  case (2 current queue ts x)
  show ?case
  proof (cases "current \<in> task_id ` set ts")
    case True
    then show ?thesis using 2 by (simp add: length_Map_delete_less)
  next
    case False
    then have "x = ts" using 2 by (simp add: Map_delete_absent)
    then show ?thesis using False by (auto simp: filter_empty_conv)
  qed
qed

definition removeTask :: "string \<Rightarrow> TaskStore \<Rightarrow> TaskStore" where
  "removeTask taskId st =
     (if \<not> Map_has task_id (tasks st) taskId then st
      else st\<lparr>tasks := removeTask_loop [taskId] (tasks st)\<rparr>)"

definition removeSection :: "string \<Rightarrow> TaskStore \<Rightarrow> TaskStore" where
  "removeSection sectionId st =
     (if \<not> Map_has sec_id (sections st) sectionId then st
      else
        let roots = filter (\<lambda>task. section_id task = Some sectionId) (tasks st);
            st' = fold (\<lambda>task. removeTask (task_id task)) roots st
        in st'\<lparr>sections := Map_delete sec_id sectionId (sections st')\<rparr>)"

subsection \<open>snapshot\<close>

text \<open>
  \<open>Array.prototype.sort\<close> is stable: with a comparator that is a total preorder its result
  is the one sorted permutation that keeps equal elements in their order, which insertion
  from the right computes. An element goes before the first one it does not compare
  greater than.
\<close>

fun insert_by :: "('a \<Rightarrow> 'a \<Rightarrow> int) \<Rightarrow> 'a \<Rightarrow> 'a list \<Rightarrow> 'a list" where
  "insert_by cmp x [] = [x]"
| "insert_by cmp x (y # ys) = (if cmp x y \<le> 0 then x # y # ys else y # insert_by cmp x ys)"

definition Array_sort :: "('a \<Rightarrow> 'a \<Rightarrow> int) \<Rightarrow> 'a list \<Rightarrow> 'a list" where
  "Array_sort cmp xs = foldr (insert_by cmp) xs []"

datatype TodoistTaskNode =
  TaskNode (node_task: TodoistTask) (children: "TodoistTaskNode list") (depth: nat)

record TodoistSection =
  section_record :: SectionRecord
  section_tasks :: "TodoistTaskNode list"

record OrganizedProjectData =
  snap_project :: "TodoistProject option"
  snap_sections :: "TodoistSection list"
  unsectioned :: "TodoistTaskNode list"

text \<open>
  \<open>String.prototype.localeCompare\<close> is the host's too: the parameter \<open>lc\<close>, negative, zero
  or positive.
\<close>

definition sortByOrder ::
  "(string \<Rightarrow> string \<Rightarrow> int) \<Rightarrow> TodoistTaskNode \<Rightarrow> TodoistTaskNode \<Rightarrow> int" where
  "sortByOrder lc a b =
     (if child_order (node_task a) = child_order (node_task b)
      then lc (task_id (node_task a)) (task_id (node_task b))
      else child_order (node_task a) - child_order (node_task b))"

text \<open>
  A node is linked under \<open>nodes.get(node.parent_id)\<close> when \<open>parent_id\<close> is truthy and that
  lookup finds a node; otherwise it is a root.
\<close>

definition has_parent :: "TodoistTask list \<Rightarrow> TodoistTask \<Rightarrow> bool" where
  "has_parent nodes node =
     (case parent_id node of None \<Rightarrow> False
      | Some p \<Rightarrow> p \<noteq> [] \<and> Map_has task_id nodes p)"

definition is_child_of :: "TodoistTask \<Rightarrow> TodoistTask \<Rightarrow> bool" where
  "is_child_of parent node = (truthy (parent_id node) \<and> parent_id node = Some (task_id parent))"

text \<open>
  The source links the nodes by mutation and then walks down from the roots
  (\<open>assignDepth\<close>), sorting every \<open>children\<close> array. \<open>build\<close> is the node that walk reaches:
  the task, its children in the map's order, sorted, one level deeper. The children of a
  node are looked up among the nodes that are not children of a node already on the path,
  which below a root are all of them (a parent chain that ends in a root has no
  repetition; see \<open>build_walk\<close>) and which makes the walk end on every input, cyclic
  \<open>parent_id\<close>s included.
\<close>

function build ::
  "(string \<Rightarrow> string \<Rightarrow> int) \<Rightarrow> TodoistTask list \<Rightarrow> nat \<Rightarrow> TodoistTask \<Rightarrow> TodoistTaskNode" where
  "build lc nodes d node =
     TaskNode node
       (Array_sort (sortByOrder lc)
          (map (build lc (filter (\<lambda>c. \<not> is_child_of node c) nodes) (d + 1))
               (filter (is_child_of node) nodes)))
       d"
  by pat_completeness auto
termination
  by (relation "measure (\<lambda>(lc, nodes, d, node). length nodes)")
     (auto intro: length_filter_less)

declare build.simps [simp del]

definition group_root ::
  "SectionRecord list \<Rightarrow> TodoistTaskNode \<Rightarrow> (string \<times> TodoistTaskNode list) list
     \<Rightarrow> (string \<times> TodoistTaskNode list) list" where
  "group_root secs root m =
     (case section_id (node_task root) of
        None \<Rightarrow> m
      | Some sid \<Rightarrow>
          if sid \<noteq> [] \<and> Map_has sec_id secs sid
          then AList.update sid ((case map_of m sid of None \<Rightarrow> [] | Some l \<Rightarrow> l) @ [root]) m
          else m)"

definition snapshot :: "(string \<Rightarrow> string \<Rightarrow> int) \<Rightarrow> TaskStore \<Rightarrow> OrganizedProjectData" where
  "snapshot lc st =
     (let nodes = fold (Map_set task_id) (tasks st) [];
          roots = map (build lc nodes 0) (filter (\<lambda>n. \<not> has_parent nodes n) nodes);
          sectionTasks = fold (group_root (sections st)) roots [];
          unsect = Array_sort (sortByOrder lc)
                     (filter (\<lambda>root. \<not> truthy (section_id (node_task root))) roots);
          secs = map (\<lambda>s. \<lparr>section_record = s,
                            section_tasks = Array_sort (sortByOrder lc)
                              (case map_of sectionTasks (sec_id s) of None \<Rightarrow> [] | Some l \<Rightarrow> l)\<rparr>)
                   (Array_sort (\<lambda>a b. section_order a - section_order b) (sections st))
      in \<lparr>snap_project = project st, snap_sections = secs, unsectioned = unsect\<rparr>)"

text \<open>
  The ids of the task nodes of a snapshot, children included: the tasks an observer of the
  snapshot sees, and the task elements of the DOM once it is rendered.
\<close>

fun node_ids :: "TodoistTaskNode \<Rightarrow> string list" where
  "node_ids (TaskNode t cs d) = task_id t # concat (map node_ids cs)"

definition snapshot_ids :: "OrganizedProjectData \<Rightarrow> string list" where
  "snapshot_ids snap =
     concat (map node_ids (unsectioned snap))
     @ concat (map (\<lambda>s. concat (map node_ids (section_tasks s))) (snap_sections snap))"

text \<open>
  The walk of the source, as a relation: \<open>walk lc nodes d node n\<close> when \<open>n\<close> is the node
  object of \<open>node\<close> after linking, depth assignment from depth \<open>d\<close> and sorting, every child
  looked up among all the nodes. It relates a task to a finite tree exactly when the walk
  from that task ends, which it does from every root. \<open>below nodes a t\<close> holds when the
  chain of parents of \<open>t\<close> passes through \<open>a\<close>. That \<open>build\<close> computes the tree of this walk
  for every root is proved below.
\<close>

inductive walk ::
  "(string \<Rightarrow> string \<Rightarrow> int) \<Rightarrow> TodoistTask list \<Rightarrow> nat \<Rightarrow> TodoistTask \<Rightarrow> TodoistTaskNode \<Rightarrow> bool"
  for lc :: "string \<Rightarrow> string \<Rightarrow> int" and nodes :: "TodoistTask list" where
  "list_all2 (walk lc nodes (d + 1)) (filter (is_child_of node) nodes) cs
     \<Longrightarrow> walk lc nodes d node (TaskNode node (Array_sort (sortByOrder lc) cs) d)"

inductive below :: "TodoistTask list \<Rightarrow> TodoistTask \<Rightarrow> TodoistTask \<Rightarrow> bool"
  for nodes :: "TodoistTask list" and a :: TodoistTask where
  child: "t \<in> set nodes \<Longrightarrow> is_child_of a t \<Longrightarrow> below nodes a t"
| step: "t \<in> set nodes \<Longrightarrow> is_child_of p t \<Longrightarrow> p \<in> set nodes \<Longrightarrow> below nodes a p
         \<Longrightarrow> below nodes a t"

section \<open>Realtime events\<close>

text \<open>
  A message of the realtime channel: \<open>{ event_name, event_data }\<close>. The payload has one of
  the shapes the source casts it to; \<open>None\<close> is a message without \<open>event_data\<close>.
  \<open>data_id\<close>, \<open>data_updated_at\<close> and \<open>data_name\<close> read the property of that name, \<open>None\<close>
  when the payload has none (a project keeps such properties among its extra fields).
\<close>

datatype event_data =
  TaskData TodoistTask | SectionData SectionRecord | ProjectData TodoistProject

record message =
  event_name :: string
  event_data :: "event_data option"

fun data_id :: "event_data \<Rightarrow> string option" where
  "data_id (TaskData t) = Some (task_id t)"
| "data_id (SectionData s) = Some (sec_id s)"
| "data_id (ProjectData p) = map_of (extra_fields p) ''id''"

fun data_updated_at :: "event_data \<Rightarrow> string option" where
  "data_updated_at (TaskData t) = Some (updated_at t)"
| "data_updated_at (SectionData s) = Some (sec_updated_at s)"
| "data_updated_at (ProjectData p) = map_of (extra_fields p) ''updated_at''"

fun data_name :: "event_data \<Rightarrow> string option" where
  "data_name (TaskData t) = None"
| "data_name (SectionData s) = Some (sec_name s)"
| "data_name (ProjectData p) = Some (name p)"

section \<open>EventQueue\<close>

text \<open>
  The queue owns two maps keyed by entity id and the timers it has armed with
  \<open>window.setTimeout\<close>; a timer is its handle, the time it is due and the entity whose
  \<open>processPending\<close> it runs. \<open>now\<close> is the clock (\<open>Date.now()\<close>, milliseconds). The two
  callbacks given to the constructor are the parameter \<open>handler\<close> (\<open>processEvent\<close>), a function
  on the state \<open>handler_state\<close> of its owner that returns or throws, and \<open>onError\<close>, of which
  the calls are recorded in \<open>reported\<close>. \<open>handled\<close> records the calls of \<open>processEvent\<close>.
  A buffered timestamp is \<open>None\<close> when it is \<open>NaN\<close>.
\<close>

record 's EventQueue =
  pendingEvents :: "(string \<times> (message \<times> int option) list) list"
  pendingEventTimers :: "(string \<times> nat) list"
  reorderDelayMs :: int
  queue_timers :: "(nat \<times> int \<times> string) list"
  queue_next_handle :: nat
  now :: int
  handler_state :: 's
  handled :: "message list"
  reported :: "(string \<times> string) list"

definition new_EventQueue :: "int \<Rightarrow> int \<Rightarrow> 's \<Rightarrow> 's EventQueue" where
  "new_EventQueue delay t s =
     \<lparr>pendingEvents = [], pendingEventTimers = [], reorderDelayMs = delay,
      queue_timers = [], queue_next_handle = 0, now = t, handler_state = s,
      handled = [], reported = []\<rparr>"

definition call_handler ::
  "(message \<Rightarrow> 's \<Rightarrow> unit outcome \<times> 's) \<Rightarrow> message \<Rightarrow> 's EventQueue
     \<Rightarrow> unit outcome \<times> 's EventQueue" where
  "call_handler handler event q =
     (let (r, s') = handler event (handler_state q)
      in (r, q\<lparr>handler_state := s', handled := handled q @ [event]\<rparr>))"

definition onError :: "string \<Rightarrow> string \<Rightarrow> 's EventQueue \<Rightarrow> 's EventQueue" where
  "onError msg technical q = q\<lparr>reported := reported q @ [(msg, technical)]\<rparr>"

definition queueForReorder ::
  "string \<Rightarrow> message \<Rightarrow> int option \<Rightarrow> 's EventQueue \<Rightarrow> 's EventQueue" where
  "queueForReorder entityId event timestamp q =
     (let q1 = q\<lparr>pendingEvents :=
                  AList.update entityId
                    ((case map_of (pendingEvents q) entityId of None \<Rightarrow> [] | Some l \<Rightarrow> l)
                       @ [(event, timestamp)])
                    (pendingEvents q)\<rparr>;
          q2 = (case map_of (pendingEventTimers q1) entityId of
                  None \<Rightarrow> q1
                | Some old \<Rightarrow> q1\<lparr>queue_timers := filter (\<lambda>(h, d, e). h \<noteq> old) (queue_timers q1)\<rparr>);
          timer = queue_next_handle q2
      in q2\<lparr>queue_timers := queue_timers q2 @ [(timer, now q2 + reorderDelayMs q2, entityId)],
            queue_next_handle := Suc timer,
            pendingEventTimers := AList.update entityId timer (pendingEventTimers q2)\<rparr>)"

text \<open>
  The timestamp \<open>process\<close> buffers a failed event with: \<open>Date.parse\<close> of its \<open>updated_at\<close>
  when that is a non-empty string, \<open>Date.now()\<close> otherwise.
\<close>

definition event_timestamp :: "(string \<Rightarrow> int option) \<Rightarrow> message \<Rightarrow> int \<Rightarrow> int option" where
  "event_timestamp parse event t =
     (case Option.bind (event_data event) data_updated_at of
        None \<Rightarrow> Some t
      | Some u \<Rightarrow> if u \<noteq> [] then parse u else Some t)"

definition process ::
  "(string \<Rightarrow> int option) \<Rightarrow> (message \<Rightarrow> 's \<Rightarrow> unit outcome \<times> 's) \<Rightarrow> message
     \<Rightarrow> 's EventQueue \<Rightarrow> 's EventQueue" where
  "process parse handler event q =
     (case call_handler handler event q of
        (Returned u, q') \<Rightarrow> q'
      | (Threw err, q') \<Rightarrow>
          (case Option.bind (event_data event) data_id of
             Some entityId \<Rightarrow>
               if entityId \<noteq> [] then
                 let timestamp = event_timestamp parse event (now q')
                 in queueForReorder entityId event timestamp q'
               else onError ''Error while handling event'' (error_message err) q'
           | None \<Rightarrow> onError ''Error while handling event'' (error_message err) q'))"

text \<open>
  The comparator of \<open>processPending\<close>, \<open>a.timestamp - b.timestamp\<close>, which is \<open>NaN\<close> (\<open>None\<close>)
  when one of the two timestamps is. \<open>Array.prototype.sort\<close> is the host's: the parameter
  \<open>hsort\<close> gives, for a comparator and an array, the array as the call leaves it.
\<close>

type_synonym buffered = "message \<times> int option"

type_synonym Array_sort_host = "(buffered \<Rightarrow> buffered \<Rightarrow> int option) \<Rightarrow> buffered list \<Rightarrow> buffered list"

definition by_timestamp :: "buffered \<Rightarrow> buffered \<Rightarrow> int option" where
  "by_timestamp a b = (case (snd a, snd b) of (Some x, Some y) \<Rightarrow> Some (x - y) | _ \<Rightarrow> None)"

definition replay ::
  "(message \<Rightarrow> 's \<Rightarrow> unit outcome \<times> 's) \<Rightarrow> message \<Rightarrow> 's EventQueue \<Rightarrow> 's EventQueue" where
  "replay handler event q =
     (case call_handler handler event q of
        (Returned u, q') \<Rightarrow> q'
      | (Threw err, q') \<Rightarrow> onError ''Error while handling event'' (error_message err) q')"

definition processPending ::
  "Array_sort_host \<Rightarrow> (message \<Rightarrow> 's \<Rightarrow> unit outcome \<times> 's) \<Rightarrow> string \<Rightarrow> 's EventQueue
     \<Rightarrow> 's EventQueue" where
  "processPending hsort handler entityId q =
     (case map_of (pendingEvents q) entityId of
        None \<Rightarrow> q
      | Some events \<Rightarrow>
          if events = [] then q
          else
            let q' = fold (replay handler) (map fst (hsort by_timestamp events)) q
            in q'\<lparr>pendingEvents := AList.delete entityId (pendingEvents q'),
                  pendingEventTimers := AList.delete entityId (pendingEventTimers q')\<rparr>)"

text \<open>
  The host runs the callback of timer \<open>h\<close> when it is due, if it has not been cleared: the
  timer leaves the table, the clock is at least the due time, \<open>processPending\<close> runs.
\<close>

definition expire ::
  "Array_sort_host \<Rightarrow> (message \<Rightarrow> 's \<Rightarrow> unit outcome \<times> 's) \<Rightarrow> nat \<Rightarrow> 's EventQueue
     \<Rightarrow> 's EventQueue" where
  "expire hsort handler h q =
     (case find (\<lambda>(h', d, e). h' = h) (queue_timers q) of
        None \<Rightarrow> q
      | Some (h', d, e) \<Rightarrow>
          processPending hsort handler e
            (q\<lparr>queue_timers := filter (\<lambda>(h', d, e). h' \<noteq> h) (queue_timers q),
               now := max (now q) d\<rparr>))"

definition clear :: "'s EventQueue \<Rightarrow> 's EventQueue" where
  "clear q =
     q\<lparr>queue_timers :=
         filter (\<lambda>(h, d, e). h \<notin> snd ` set (pendingEventTimers q)) (queue_timers q),
       pendingEvents := [], pendingEventTimers := []\<rparr>"

section \<open>TaskTree\<close>

text \<open>
  The facade that owns the store and the view. Of the view the model keeps what the tree
  reads back: the elements under the root that carry a \<open>data-task-id\<close> or a
  \<open>data-section-id\<close>, in document order, and the two sets of ids that render hidden.
  \<open>OtherElement\<close> stands for any other element under the root (a row, a title, a
  container). \<open>rendered\<close> is the log of the snapshots handed to \<open>render\<close>. The hooks are the
  caller's: which of them are present is part of the state, and their calls are recorded
  in \<open>hook_calls\<close> with the element they are given. A hook returns, leaves the elements
  under the root in place and does not call back into the tree while it runs; the \<open>done\<close>
  callback handed to a remove hook is called later, by \<open>animation_done\<close>. The timers armed with \<open>window.setTimeout\<close> are the handle,
  the time they are due and which of the two callbacks they run.
\<close>

datatype element = TaskElement string | SectionElement string | OtherElement

datatype after_render = AfterTaskAdd string | AfterSectionAdd string

datatype hook_call =
  OnTaskAdd element string | OnTaskRemove element | OnSectionAdd element
  | OnSectionRemove element | OnTreeChange

datatype timer_callback = DebounceCallback | PollCallback

record TaskTreeHooks =
  has_onTaskAdd :: bool
  has_onTaskRemove :: bool
  has_onSectionAdd :: bool
  has_onSectionRemove :: bool
  has_onTreeChange :: bool

record TaskTree =
  store :: TaskStore
  rootElement :: "element list"
  rendered :: "OrganizedProjectData list"
  view_pendingTaskAddIds :: "string list"
  view_pendingSectionAddIds :: "string list"
  renderTimer :: "nat option"
  pendingSnapshot :: "OrganizedProjectData option"
  afterRenderCallbacks :: "after_render list"
  pendingTaskAddIds :: "string list"
  pendingSectionAddIds :: "string list"
  animationsInProgress :: int
  isRendering :: bool
  hooks :: TaskTreeHooks
  hook_calls :: "hook_call list"
  tree_timers :: "(nat \<times> int \<times> timer_callback) list"
  tree_next_handle :: nat
  clock :: int

definition renderDelayMs :: int where
  "renderDelayMs = 150"

definition new_TaskTree :: "element list \<Rightarrow> TaskTreeHooks \<Rightarrow> int \<Rightarrow> TaskTree" where
  "new_TaskTree root hs t =
     \<lparr>store = empty_store, rootElement = root, rendered = [], view_pendingTaskAddIds = [],
      view_pendingSectionAddIds = [], renderTimer = None, pendingSnapshot = None,
      afterRenderCallbacks = [], pendingTaskAddIds = [], pendingSectionAddIds = [],
      animationsInProgress = 0, isRendering = False, hooks = hs, hook_calls = [],
      tree_timers = [], tree_next_handle = 0, clock = t\<rparr>"

text \<open>\<open>Set.prototype.add\<close> and \<open>delete\<close> on a set kept as the list of its elements.\<close>

definition Set_add :: "string \<Rightarrow> string list \<Rightarrow> string list" where
  "Set_add x xs = (if x \<in> set xs then xs else xs @ [x])"

definition Set_delete :: "string \<Rightarrow> string list \<Rightarrow> string list" where
  "Set_delete x xs = removeAll x xs"

subsection \<open>TaskView\<close>

text \<open>
  \<open>render\<close> empties the root and appends the unsectioned tasks, then every section.
  \<open>appendTasks\<close> appends the element of each task (\<open>createTaskElement\<close>), its subtasks
  inside it; \<open>renderSection\<close> gives the element of the section with its tasks inside.
\<close>

fun appendTasks :: "TodoistTaskNode list \<Rightarrow> element list" where
  "appendTasks [] = []"
| "appendTasks (TaskNode task cs d # rest) =
     TaskElement (task_id task) # appendTasks cs @ appendTasks rest"

definition renderSection :: "TodoistSection \<Rightarrow> element list" where
  "renderSection s = SectionElement (sec_id (section_record s)) # appendTasks (section_tasks s)"

definition render :: "OrganizedProjectData \<Rightarrow> TaskTree \<Rightarrow> TaskTree" where
  "render data t =
     t\<lparr>rootElement := appendTasks (unsectioned data) @ concat (map renderSection (snap_sections data)),
       rendered := rendered t @ [data]\<rparr>"

text \<open>
  \<open>findTaskElement\<close> and \<open>findSectionElement\<close> splice the id between double quotes into
  an attribute selector and hand it to \<open>querySelector\<close> of the root. \<open>querySelector\<close> is the
  host's: the parameter \<open>qs\<close> gives, for the selector string and the elements under the
  root, the element found or \<open>null\<close>, or the \<open>SyntaxError\<close> it throws when the string is
  not a selector, as happens for an id that holds a double quote.
\<close>

type_synonym querySelector = "string \<Rightarrow> element list \<Rightarrow> element option outcome"

definition findTaskElement :: "querySelector \<Rightarrow> string \<Rightarrow> TaskTree \<Rightarrow> element option outcome" where
  "findTaskElement qs taskId t =
     qs (''[data-task-id='' @ [CHR 0x22] @ taskId @ [CHR 0x22] @ '']'') (rootElement t)"

definition findSectionElement :: "querySelector \<Rightarrow> string \<Rightarrow> TaskTree \<Rightarrow> element option outcome" where
  "findSectionElement qs sectionId t =
     qs (''[data-section-id='' @ [CHR 0x22] @ sectionId @ [CHR 0x22] @ '']'') (rootElement t)"

subsection \<open>Rendering\<close>

definition setTimeout :: "timer_callback \<Rightarrow> int \<Rightarrow> TaskTree \<Rightarrow> TaskTree" where
  "setTimeout cb delay t =
     t\<lparr>renderTimer := Some (tree_next_handle t),
       tree_timers := tree_timers t @ [(tree_next_handle t, clock t + delay, cb)],
       tree_next_handle := Suc (tree_next_handle t)\<rparr>"

definition clearTimeout :: "nat \<Rightarrow> TaskTree \<Rightarrow> TaskTree" where
  "clearTimeout h t = t\<lparr>tree_timers := filter (\<lambda>(h', d, cb). h' \<noteq> h) (tree_timers t)\<rparr>"

text \<open>
  \<open>queueRender\<close> without \<open>immediate\<close>, which is how \<open>flushRender\<close> calls it at its end.
\<close>

definition queueRender_later ::
  "OrganizedProjectData \<Rightarrow> after_render option \<Rightarrow> TaskTree \<Rightarrow> TaskTree" where
  "queueRender_later snap afterRender t =
     (let t1 = t\<lparr>pendingSnapshot := Some snap,
                 afterRenderCallbacks :=
                   afterRenderCallbacks t @ (case afterRender of None \<Rightarrow> [] | Some cb \<Rightarrow> [cb])\<rparr>
      in if isRendering t1 \<or> animationsInProgress t1 > 0 then t1
         else if renderTimer t1 \<noteq> None then t1
         else setTimeout DebounceCallback renderDelayMs t1)"

text \<open>
  The callbacks queued by \<open>addTask\<close> and \<open>addSection\<close>. They look the new element up, so
  they throw when \<open>querySelector\<close> does; \<open>forEach\<close> stops at the first callback that throws.
\<close>

definition run_after_render :: "querySelector \<Rightarrow> after_render \<Rightarrow> TaskTree \<Rightarrow> unit outcome \<times> TaskTree" where
  "run_after_render qs cb t =
     (case cb of
        AfterTaskAdd taskId \<Rightarrow>
          (case findTaskElement qs taskId t of
             Threw err \<Rightarrow> (Threw err, t)
           | Returned element \<Rightarrow>
               let t1 = (case element of
                           None \<Rightarrow> t
                         | Some el \<Rightarrow>
                             if has_onTaskAdd (hooks t)
                             then t\<lparr>hook_calls := hook_calls t @ [OnTaskAdd el taskId]\<rparr> else t)
               in (Returned (), t1\<lparr>pendingTaskAddIds := Set_delete taskId (pendingTaskAddIds t1)\<rparr>))
      | AfterSectionAdd sectionId \<Rightarrow>
          (case findSectionElement qs sectionId t of
             Threw err \<Rightarrow> (Threw err, t)
           | Returned element \<Rightarrow>
               let t1 = (case element of
                           None \<Rightarrow> t
                         | Some el \<Rightarrow>
                             if has_onSectionAdd (hooks t)
                             then t\<lparr>hook_calls := hook_calls t @ [OnSectionAdd el]\<rparr> else t)
               in (Returned (),
                   t1\<lparr>pendingSectionAddIds := Set_delete sectionId (pendingSectionAddIds t1)\<rparr>)))"

fun forEach_callback ::
  "querySelector \<Rightarrow> after_render list \<Rightarrow> TaskTree \<Rightarrow> unit outcome \<times> TaskTree" where
  "forEach_callback qs [] t = (Returned (), t)"
| "forEach_callback qs (cb # cbs) t =
     (case run_after_render qs cb t of
        (Threw err, t') \<Rightarrow> (Threw err, t')
      | (Returned u, t') \<Rightarrow> forEach_callback qs cbs t')"

text \<open>
  When a callback throws, \<open>flushRender\<close> is left where it is: the snapshot has been
  rendered and the callbacks have been taken off the list, but \<open>isRendering\<close> stays set.
\<close>

definition flushRender :: "querySelector \<Rightarrow> TaskTree \<Rightarrow> unit outcome \<times> TaskTree" where
  "flushRender qs t =
     (case pendingSnapshot t of
        None \<Rightarrow> (Returned (), t)
      | Some snap \<Rightarrow>
          if animationsInProgress t > 0 then
            (Returned (), if renderTimer t = None then setTimeout PollCallback 50 t else t)
          else
            let t1 = (render snap
                        (t\<lparr>isRendering := True,
                           view_pendingTaskAddIds := pendingTaskAddIds t,
                           view_pendingSectionAddIds := pendingSectionAddIds t\<rparr>))
                     \<lparr>pendingSnapshot := None\<rparr>;
                callbacks = afterRenderCallbacks t1
            in (case forEach_callback qs callbacks (t1\<lparr>afterRenderCallbacks := []\<rparr>) of
                  (Threw err, t2) \<Rightarrow> (Threw err, t2)
                | (Returned u, t2) \<Rightarrow>
                    let t3 = t2\<lparr>isRendering := False\<rparr>;
                        t4 = (if has_onTreeChange (hooks t3)
                              then t3\<lparr>hook_calls := hook_calls t3 @ [OnTreeChange]\<rparr> else t3)
                    in (Returned (),
                        case pendingSnapshot t4 of
                          None \<Rightarrow> t4
                        | Some again \<Rightarrow> queueRender_later again None t4)))"

definition queueRender ::
  "querySelector \<Rightarrow> OrganizedProjectData \<Rightarrow> bool \<Rightarrow> after_render option \<Rightarrow> TaskTree
     \<Rightarrow> unit outcome \<times> TaskTree" where
  "queueRender qs snap immediate afterRender t =
     (let t1 = t\<lparr>pendingSnapshot := Some snap,
                 afterRenderCallbacks :=
                   afterRenderCallbacks t @ (case afterRender of None \<Rightarrow> [] | Some cb \<Rightarrow> [cb])\<rparr>
      in if isRendering t1 \<or> animationsInProgress t1 > 0 then (Returned (), t1)
         else if immediate then
           flushRender qs
             (case renderTimer t1 of
                None \<Rightarrow> t1
              | Some h \<Rightarrow> (clearTimeout h t1)\<lparr>renderTimer := None\<rparr>)
         else if renderTimer t1 \<noteq> None then (Returned (), t1)
         else (Returned (), setTimeout DebounceCallback renderDelayMs t1))"

text \<open>
  The host runs the callback of timer \<open>h\<close> when it is due, if it has not been cleared. The
  debounce callback is \<open>flushRender(); renderTimer = null\<close>, so the timer is not reset when
  \<open>flushRender\<close> throws; the poll callback is \<open>renderTimer = null; flushRender()\<close>.
\<close>

definition timer_expires :: "querySelector \<Rightarrow> nat \<Rightarrow> TaskTree \<Rightarrow> unit outcome \<times> TaskTree" where
  "timer_expires qs h t =
     (case find (\<lambda>(h', d, cb). h' = h) (tree_timers t) of
        None \<Rightarrow> (Returned (), t)
      | Some (h', d, cb) \<Rightarrow>
          let t1 = t\<lparr>tree_timers := filter (\<lambda>(h', d, cb). h' \<noteq> h) (tree_timers t),
                      clock := max (clock t) d\<rparr>
          in (case cb of
                DebounceCallback \<Rightarrow>
                  (case flushRender qs t1 of
                     (Threw err, t2) \<Rightarrow> (Threw err, t2)
                   | (Returned u, t2) \<Rightarrow> (Returned (), t2\<lparr>renderTimer := None\<rparr>))
              | PollCallback \<Rightarrow> flushRender qs (t1\<lparr>renderTimer := None\<rparr>)))"

text \<open>The \<open>done\<close> callback of a remove hook.\<close>

definition animation_done ::
  "(string \<Rightarrow> string \<Rightarrow> int) \<Rightarrow> querySelector \<Rightarrow> TaskTree \<Rightarrow> unit outcome \<times> TaskTree" where
  "animation_done lc qs t =
     (let t1 = t\<lparr>animationsInProgress := animationsInProgress t - 1\<rparr>
      in queueRender qs (snapshot lc (store t1)) False None t1)"

subsection \<open>The public methods\<close>

definition tree_organize ::
  "(string \<Rightarrow> string \<Rightarrow> int) \<Rightarrow> querySelector \<Rightarrow> TodoistProjectResponse \<Rightarrow> TaskTree
     \<Rightarrow> unit outcome \<times> TaskTree" where
  "tree_organize lc qs data t =
     (let t1 = t\<lparr>store := organize data (store t)\<rparr>
      in queueRender qs (snapshot lc (store t1)) False None t1)"

definition tree_removeTask ::
  "(string \<Rightarrow> string \<Rightarrow> int) \<Rightarrow> querySelector \<Rightarrow> string \<Rightarrow> TaskTree \<Rightarrow> unit outcome \<times> TaskTree" where
  "tree_removeTask lc qs taskId t =
     (case findTaskElement qs taskId t of
        Threw err \<Rightarrow> (Threw err, t)
      | Returned element \<Rightarrow>
          let t1 = t\<lparr>store := removeTask taskId (store t)\<rparr>
          in (case element of
                None \<Rightarrow> queueRender qs (snapshot lc (store t1)) False None t1
              | Some el \<Rightarrow>
                  if has_onTaskRemove (hooks t1)
                  then (Returned (),
                        t1\<lparr>animationsInProgress := animationsInProgress t1 + 1,
                           hook_calls := hook_calls t1 @ [OnTaskRemove el]\<rparr>)
                  else queueRender qs (snapshot lc (store t1)) False None t1))"

definition tree_addTask ::
  "(string \<Rightarrow> string \<Rightarrow> int) \<Rightarrow> querySelector \<Rightarrow> TodoistTask \<Rightarrow> TaskTree \<Rightarrow> unit outcome \<times> TaskTree" where
  "tree_addTask lc qs task t =
     (case addTask task (store t) of
        (Threw err, st) \<Rightarrow> (Threw err, t\<lparr>store := st\<rparr>)
      | (Returned u, st) \<Rightarrow>
          let t1 = t\<lparr>store := st, pendingTaskAddIds := Set_add (task_id task) (pendingTaskAddIds t)\<rparr>
          in queueRender qs (snapshot lc (store t1)) False (Some (AfterTaskAdd (task_id task))) t1)"

definition tree_addSection ::
  "(string \<Rightarrow> string \<Rightarrow> int) \<Rightarrow> querySelector \<Rightarrow> SectionRecord \<Rightarrow> TaskTree
     \<Rightarrow> unit outcome \<times> TaskTree" where
  "tree_addSection lc qs sec t =
     (case addSection sec (store t) of
        (Threw err, st) \<Rightarrow> (Threw err, t\<lparr>store := st\<rparr>)
      | (Returned u, st) \<Rightarrow>
          let t1 = t\<lparr>store := st,
                      pendingSectionAddIds := Set_add (sec_id sec) (pendingSectionAddIds t)\<rparr>
          in queueRender qs (snapshot lc (store t1)) False (Some (AfterSectionAdd (sec_id sec))) t1)"

definition tree_updateSection ::
  "(string \<Rightarrow> int option) \<Rightarrow> (string \<Rightarrow> string \<Rightarrow> int) \<Rightarrow> querySelector \<Rightarrow> SectionRecord
     \<Rightarrow> TaskTree \<Rightarrow> unit outcome \<times> TaskTree" where
  "tree_updateSection parse lc qs sec t =
     (case updateSection parse sec (store t) of
        (Threw err, st) \<Rightarrow> (Threw err, t\<lparr>store := st\<rparr>)
      | (Returned skipped, st) \<Rightarrow>
          let t1 = t\<lparr>store := st\<rparr>
          in if skipped then (Returned (), t1)
             else queueRender qs (snapshot lc (store t1)) False None t1)"

definition tree_removeSection ::
  "(string \<Rightarrow> string \<Rightarrow> int) \<Rightarrow> querySelector \<Rightarrow> string \<Rightarrow> TaskTree \<Rightarrow> unit outcome \<times> TaskTree" where
  "tree_removeSection lc qs sectionId t =
     (case findSectionElement qs sectionId t of
        Threw err \<Rightarrow> (Threw err, t)
      | Returned element \<Rightarrow>
          let t1 = t\<lparr>store := removeSection sectionId (store t)\<rparr>
          in (case element of
                None \<Rightarrow> queueRender qs (snapshot lc (store t1)) False None t1
              | Some el \<Rightarrow>
                  if has_onSectionRemove (hooks t1)
                  then (Returned (),
                        t1\<lparr>animationsInProgress := animationsInProgress t1 + 1,
                           hook_calls := hook_calls t1 @ [OnSectionRemove el]\<rparr>)
                  else queueRender qs (snapshot lc (store t1)) False None t1))"

definition tree_updateTask ::
  "(string \<Rightarrow> int option) \<Rightarrow> (string \<Rightarrow> string \<Rightarrow> int) \<Rightarrow> querySelector \<Rightarrow> TodoistTask
     \<Rightarrow> TaskTree \<Rightarrow> unit outcome \<times> TaskTree" where
  "tree_updateTask parse lc qs updatedTask t =
     (case updateTask parse updatedTask (store t) of
        (Threw err, st) \<Rightarrow> (Threw err, t\<lparr>store := st\<rparr>)
      | (Returned u, st) \<Rightarrow>
          let t1 = t\<lparr>store := st\<rparr>
          in queueRender qs (snapshot lc (store t1)) False None t1)"

section \<open>The widget's event dispatch\<close>

text \<open>
  Of \<open>ProjectWidgetScript\<close> the dispatch reads and writes the text of the title element
  and the task tree. \<open>processEvent\<close> returns \<open>None\<close> on a message whose payload has not the
  shape the source casts it to for that event name (the cast is unchecked and what
  follows is outside the declared types); a recognised event without \<open>event_data\<close> throws
  the runtime's \<open>TypeError\<close> when the payload is read.
\<close>

record ProjectWidgetScript =
  projectTitle :: string
  taskTree :: TaskTree

definition undefined_payload :: error where
  "undefined_payload = TypeError ''Cannot read properties of undefined''"

definition lift_tree ::
  "ProjectWidgetScript \<Rightarrow> unit outcome \<times> TaskTree \<Rightarrow> (unit outcome \<times> ProjectWidgetScript) option" where
  "lift_tree w r = Some (fst r, w\<lparr>taskTree := snd r\<rparr>)"

definition processEvent ::
  "(string \<Rightarrow> int option) \<Rightarrow> (string \<Rightarrow> string \<Rightarrow> int) \<Rightarrow> querySelector \<Rightarrow> message
     \<Rightarrow> ProjectWidgetScript \<Rightarrow> (unit outcome \<times> ProjectWidgetScript) option" where
  "processEvent parse lc qs msg w =
     (if event_name msg = ''item:completed'' \<or> event_name msg = ''item:deleted'' then
        (case event_data msg of
           None \<Rightarrow> Some (Threw undefined_payload, w)
         | Some d \<Rightarrow>
             (case data_id d of
                None \<Rightarrow> None
              | Some i \<Rightarrow> lift_tree w (tree_removeTask lc qs i (taskTree w))))
      else if event_name msg = ''section:archived'' \<or> event_name msg = ''section:deleted'' then
        (case event_data msg of
           None \<Rightarrow> Some (Threw undefined_payload, w)
         | Some d \<Rightarrow>
             (case data_id d of
                None \<Rightarrow> None
              | Some i \<Rightarrow> lift_tree w (tree_removeSection lc qs i (taskTree w))))
      else if event_name msg = ''item:updated'' then
        (case event_data msg of
           None \<Rightarrow> Some (Threw undefined_payload, w)
         | Some (TaskData task) \<Rightarrow> lift_tree w (tree_updateTask parse lc qs task (taskTree w))
         | Some _ \<Rightarrow> None)
      else if event_name msg = ''project:updated'' then
        (case event_data msg of
           None \<Rightarrow> Some (Threw undefined_payload, w)
         | Some d \<Rightarrow>
             (case data_name d of
                None \<Rightarrow> None
              | Some n \<Rightarrow> Some (Returned (), w\<lparr>projectTitle := n\<rparr>)))
      else if event_name msg = ''item:added'' \<or> event_name msg = ''item:uncompleted'' then
        (case event_data msg of
           None \<Rightarrow> Some (Threw undefined_payload, w)
         | Some (TaskData task) \<Rightarrow> lift_tree w (tree_addTask lc qs task (taskTree w))
         | Some _ \<Rightarrow> None)
      else if event_name msg = ''section:added'' \<or> event_name msg = ''section:unarchived'' then
        (case event_data msg of
           None \<Rightarrow> Some (Threw undefined_payload, w)
         | Some (SectionData section) \<Rightarrow> lift_tree w (tree_addSection lc qs section (taskTree w))
         | Some _ \<Rightarrow> None)
      else if event_name msg = ''section:updated'' then
        (case event_data msg of
           None \<Rightarrow> Some (Threw undefined_payload, w)
         | Some (SectionData section) \<Rightarrow>
             lift_tree w (tree_updateSection parse lc qs section (taskTree w))
         | Some _ \<Rightarrow> None)
      else Some (Returned (), w))"

section \<open>Bursts of mutations\<close>

text \<open>
  A call of one of the public methods of the tree, and a caller that issues such calls at
  given times: the clock is moved to the time of the call, the method runs, and an
  exception is the caller's to catch.
\<close>

datatype mutation =
  Organize TodoistProjectResponse
  | AddTask TodoistTask
  | UpdateTask TodoistTask
  | RemoveTask string
  | AddSection SectionRecord
  | UpdateSection SectionRecord
  | RemoveSection string

definition apply_mutation ::
  "(string \<Rightarrow> int option) \<Rightarrow> (string \<Rightarrow> string \<Rightarrow> int) \<Rightarrow> querySelector \<Rightarrow> mutation \<Rightarrow> TaskTree
     \<Rightarrow> unit outcome \<times> TaskTree" where
  "apply_mutation parse lc qs m t =
     (case m of
        Organize data \<Rightarrow> tree_organize lc qs data t
      | AddTask task \<Rightarrow> tree_addTask lc qs task t
      | UpdateTask task \<Rightarrow> tree_updateTask parse lc qs task t
      | RemoveTask taskId \<Rightarrow> tree_removeTask lc qs taskId t
      | AddSection sec \<Rightarrow> tree_addSection lc qs sec t
      | UpdateSection sec \<Rightarrow> tree_updateSection parse lc qs sec t
      | RemoveSection sectionId \<Rightarrow> tree_removeSection lc qs sectionId t)"

definition issue ::
  "(string \<Rightarrow> int option) \<Rightarrow> (string \<Rightarrow> string \<Rightarrow> int) \<Rightarrow> querySelector \<Rightarrow> int \<times> mutation
     \<Rightarrow> TaskTree \<Rightarrow> TaskTree" where
  "issue parse lc qs call t =
     snd (apply_mutation parse lc qs (snd call) (t\<lparr>clock := max (clock t) (fst call)\<rparr>))"

text \<open>
  What happens to the tree between two renders, one step at a time: a call issued at a
  given time, the \<open>done\<close> callback of a remove hook called at a given time, or the host
  running the callback of a timer.
\<close>

datatype step = Call int mutation | Done int | Expire nat

fun run_step ::
  "(string \<Rightarrow> int option) \<Rightarrow> (string \<Rightarrow> string \<Rightarrow> int) \<Rightarrow> querySelector \<Rightarrow> step \<Rightarrow> TaskTree
     \<Rightarrow> TaskTree" where
  "run_step parse lc qs (Call at m) t = issue parse lc qs (at, m) t"
| "run_step parse lc qs (Done at) t = snd (animation_done lc qs (t\<lparr>clock := max (clock t) at\<rparr>))"
| "run_step parse lc qs (Expire h) t = snd (timer_expires qs h t)"

text \<open>
  A burst is a sequence of steps before the window elapses: every call and every \<open>done\<close>
  comes at a time not before the clock and before any live timer is due (the host would
  have run that timer first), \<open>done\<close> is called only while an exit animation is in
  progress, and a timer expires inside the burst only while an exit animation is in
  progress.
\<close>

definition before_expiry :: "int \<Rightarrow> TaskTree \<Rightarrow> bool" where
  "before_expiry at t = (clock t \<le> at \<and> list_all (\<lambda>(h, due, cb). at < due) (tree_timers t))"

fun in_burst :: "step \<Rightarrow> TaskTree \<Rightarrow> bool" where
  "in_burst (Call at m) t = before_expiry at t"
| "in_burst (Done at) t = (before_expiry at t \<and> animationsInProgress t > 0)"
| "in_burst (Expire h) t = (h \<in> set (map fst (tree_timers t)) \<and> animationsInProgress t > 0)"

fun burst ::
  "(string \<Rightarrow> int option) \<Rightarrow> (string \<Rightarrow> string \<Rightarrow> int) \<Rightarrow> querySelector \<Rightarrow> step list \<Rightarrow> TaskTree
     \<Rightarrow> bool" where
  "burst parse lc qs [] t = True"
| "burst parse lc qs (s # ss) t = (in_burst s t \<and> burst parse lc qs ss (run_step parse lc qs s t))"

fun step_times :: "step list \<Rightarrow> int list" where
  "step_times [] = []"
| "step_times (Call at m # ss) = at # step_times ss"
| "step_times (Done at # ss) = at # step_times ss"
| "step_times (Expire h # ss) = step_times ss"

text \<open>
  A call requests a render when the method returns and it is not an \<open>updateSection\<close> that
  the store reports as skipped; a burst does when one of its calls does.
\<close>

definition requests_render ::
  "(string \<Rightarrow> int option) \<Rightarrow> (string \<Rightarrow> string \<Rightarrow> int) \<Rightarrow> querySelector \<Rightarrow> mutation \<Rightarrow> TaskTree
     \<Rightarrow> bool" where
  "requests_render parse lc qs m t =
     (fst (apply_mutation parse lc qs m t) = Returned ()
      \<and> (case m of
            UpdateSection sec \<Rightarrow> fst (updateSection parse sec (store t)) \<noteq> Returned True
          | _ \<Rightarrow> True))"

fun requested ::
  "(string \<Rightarrow> int option) \<Rightarrow> (string \<Rightarrow> string \<Rightarrow> int) \<Rightarrow> querySelector \<Rightarrow> step list \<Rightarrow> TaskTree
     \<Rightarrow> bool" where
  "requested parse lc qs [] t = False"
| "requested parse lc qs (Call at m # ss) t =
     (requests_render parse lc qs m t
      \<or> requested parse lc qs ss (run_step parse lc qs (Call at m) t))"
| "requested parse lc qs (Done at # ss) t = requested parse lc qs ss (run_step parse lc qs (Done at) t)"
| "requested parse lc qs (Expire h # ss) t =
     requested parse lc qs ss (run_step parse lc qs (Expire h) t)"

definition idle :: "TaskTree \<Rightarrow> bool" where
  "idle t =
     (renderTimer t = None \<and> tree_timers t = [] \<and> pendingSnapshot t = None
      \<and> animationsInProgress t = 0 \<and> \<not> isRendering t)"

section \<open>Notions the properties are stated with\<close>

text \<open>
  The order the spec gives to siblings, and the tasks whose chain of \<open>parent_id\<close>s leads
  back to a given task.
\<close>

definition get_or_empty :: "(string \<times> 'a list) list \<Rightarrow> string \<Rightarrow> 'a list" where
  "get_or_empty m k = (case map_of m k of None \<Rightarrow> [] | Some l \<Rightarrow> l)"

definition grouped :: "SectionRecord list \<Rightarrow> string \<Rightarrow> TodoistTaskNode \<Rightarrow> bool" where
  "grouped secs k root =
     (section_id (node_task root) = Some k \<and> k \<noteq> [] \<and> Map_has sec_id secs k)"



text \<open>The ids stored are distinct, as the keys of a \<open>Map\<close> are.\<close>

definition distinct_ids :: "TaskStore \<Rightarrow> bool" where
  "distinct_ids st = (distinct (map task_id (tasks st)) \<and> distinct (map sec_id (sections st)))"


inductive leads_back :: "TodoistTask list \<Rightarrow> string \<Rightarrow> string \<Rightarrow> bool"
  for ts :: "TodoistTask list" and target :: string where
  self: "leads_back ts target target"
| child: "t \<in> set ts \<Longrightarrow> parent_id t = Some p \<Longrightarrow> leads_back ts target p
          \<Longrightarrow> leads_back ts target (task_id t)"

text \<open>
  \<open>removeSection\<close> as the specification words it: only root tasks (no parent) that carry
  the section id are selected for the cascade. It is compared with the source's
  \<open>removeSection\<close> below.
\<close>

definition removeSection_spec :: "string \<Rightarrow> TaskStore \<Rightarrow> TaskStore" where
  "removeSection_spec sectionId st =
     (if \<not> Map_has sec_id (sections st) sectionId then st
      else
        let roots = filter (\<lambda>task. section_id task = Some sectionId \<and> parent_id task = None)
                      (tasks st);
            st' = fold (\<lambda>task. removeTask (task_id task)) roots st
        in st'\<lparr>sections := Map_delete sec_id sectionId (sections st')\<rparr>)"

text \<open>
  What a replay pass does, call by call: the outcomes of the handler run over a list of
  events from a given state, the state it ends in, and the reports for the calls that threw.
\<close>

fun replay_outcomes ::
  "(message \<Rightarrow> 's \<Rightarrow> unit outcome \<times> 's) \<Rightarrow> message list \<Rightarrow> 's \<Rightarrow> unit outcome list" where
  "replay_outcomes handler [] s = []"
| "replay_outcomes handler (m # ms) s =
     fst (handler m s) # replay_outcomes handler ms (snd (handler m s))"

fun replay_state :: "(message \<Rightarrow> 's \<Rightarrow> unit outcome \<times> 's) \<Rightarrow> message list \<Rightarrow> 's \<Rightarrow> 's" where
  "replay_state handler [] s = s"
| "replay_state handler (m # ms) s = replay_state handler ms (snd (handler m s))"

fun reports_of :: "unit outcome list \<Rightarrow> (string \<times> string) list" where
  "reports_of [] = []"
| "reports_of (Returned u # rs) = reports_of rs"
| "reports_of (Threw err # rs) = (''Error while handling event'', error_message err) # reports_of rs"

text \<open>
  What ECMAScript asks of \<open>Array.prototype.sort\<close>. A comparator result that is \<open>NaN\<close> counts
  as zero (\<open>SortCompare\<close>). When every buffered timestamp is a number the comparator is
  consistent, and the array after the call holds the same elements, ascending under the
  comparator, elements that compare equal in their former order (the sort is stable).
  With a \<open>NaN\<close> timestamp the comparator is not consistent and the order is left to the
  host, which still permutes the array. \<open>host_sorts hsort evs\<close> says that the host's sort
  does so on the buffer \<open>evs\<close>.
\<close>

definition SortCompare :: "('a \<Rightarrow> 'a \<Rightarrow> int option) \<Rightarrow> 'a \<Rightarrow> 'a \<Rightarrow> int" where
  "SortCompare cmp a b = (case cmp a b of None \<Rightarrow> 0 | Some v \<Rightarrow> v)"




text \<open>
  The state of the timers the queue keeps between calls: handles and registered entities
  are distinct, every armed timer is the one registered for its entity, that entity has
  buffered events, and a registered handle is below the next handle and is not the handle
  of another entity's timer.
\<close>

definition queue_inv :: "'s EventQueue \<Rightarrow> bool" where
  "queue_inv q =
     (distinct (map fst (queue_timers q))
      \<and> distinct (map fst (pendingEventTimers q))
      \<and> list_all (\<lambda>(h, d, e). map_of (pendingEventTimers q) e = Some h
                     \<and> (case map_of (pendingEvents q) e of None \<Rightarrow> False | Some l \<Rightarrow> l \<noteq> []))
           (queue_timers q)
      \<and> list_all (\<lambda>(e, h). h < queue_next_handle q
                     \<and> list_all (\<lambda>(h', d, e'). h' = h \<longrightarrow> e' = e) (queue_timers q))
           (pendingEventTimers q))"

definition timers_of :: "string \<Rightarrow> 's EventQueue \<Rightarrow> (nat \<times> int \<times> string) list" where
  "timers_of e q = filter (\<lambda>(h, d, e'). e' = e) (queue_timers q)"

text \<open>
  The states of the tree inside a burst that started from the tree \<open>t0\<close>, where \<open>T\<close> holds
  the times of the steps so far. Nothing has been rendered since \<open>t0\<close>. The tree is
  \<open>untouched\<close> when only the clock has moved; it is \<open>debouncing\<close> when no exit animation is in
  progress, the debounce timer is the one live timer and the pending snapshot is that of
  the store; it is \<open>animating\<close> when an exit animation is in progress, with the debounce
  timer or no timer.
\<close>

definition untouched :: "TaskTree \<Rightarrow> TaskTree \<Rightarrow> bool" where
  "untouched t0 t = (t = t0\<lparr>clock := clock t\<rparr>)"

definition debounce_timer :: "int set \<Rightarrow> TaskTree \<Rightarrow> bool" where
  "debounce_timer T t =
     (\<exists>h due. renderTimer t = Some h \<and> tree_timers t = [(h, due, DebounceCallback)]
        \<and> clock t < due \<and> due - renderDelayMs \<in> T)"

definition debouncing :: "(string \<Rightarrow> string \<Rightarrow> int) \<Rightarrow> TaskTree \<Rightarrow> int set \<Rightarrow> TaskTree \<Rightarrow> bool" where
  "debouncing lc t0 T t =
     (rendered t = rendered t0 \<and> \<not> isRendering t \<and> animationsInProgress t = 0
      \<and> debounce_timer T t \<and> pendingSnapshot t = Some (snapshot lc (store t)))"

definition animating :: "TaskTree \<Rightarrow> int set \<Rightarrow> TaskTree \<Rightarrow> bool" where
  "animating t0 T t =
     (rendered t = rendered t0 \<and> \<not> isRendering t \<and> animationsInProgress t > 0
      \<and> ((renderTimer t = None \<and> tree_timers t = []) \<or> debounce_timer T t))"

definition in_progress ::
  "(string \<Rightarrow> string \<Rightarrow> int) \<Rightarrow> TaskTree \<Rightarrow> int set \<Rightarrow> bool \<Rightarrow> TaskTree \<Rightarrow> bool" where
  "in_progress lc t0 T req t =
     (if req then debouncing lc t0 T t \<or> animating t0 T t else untouched t0 t)"

section \<open>Sample inputs\<close>

text \<open>
  Concrete values at which the theorems below are evaluated. \<open>sample_parse\<close> is
  \<open>Date.parse\<close> on the two timestamps the samples use and \<open>NaN\<close> elsewhere.
\<close>

definition sample_parse :: "string \<Rightarrow> int option" where
  "sample_parse s =
     (if s = ''2024-05-01T09:00:00Z'' then Some 1714554000000
      else if s = ''2024-05-01T10:00:00Z'' then Some 1714557600000
      else None)"

definition sample_task :: "string \<Rightarrow> string option \<Rightarrow> string option \<Rightarrow> int \<Rightarrow> string \<Rightarrow> TodoistTask" where
  "sample_task i p s c u =
     \<lparr>task_id = i, parent_id = p, section_id = s, child_order = c, content = ''Buy milk'',
      updated_at = u\<rparr>"

definition sample_section :: "string \<Rightarrow> int \<Rightarrow> string \<Rightarrow> SectionRecord" where
  "sample_section i n u = \<lparr>sec_id = i, sec_name = ''S1'', section_order = n, sec_updated_at = u\<rparr>"

definition sample_store :: TaskStore where
  "sample_store =
     \<lparr>project = Some \<lparr>name = ''P'', extra_fields = []\<rparr>,
      sections = [sample_section ''s1'' 0 ''2024-05-01T10:00:00Z''],
      tasks = [sample_task ''t1'' None (Some ''s1'') 0 ''2024-05-01T10:00:00Z'']\<rparr>"

fun sample_compare :: "string \<Rightarrow> string \<Rightarrow> int" where
  "sample_compare [] [] = 0"
| "sample_compare [] (y # ys) = -1"
| "sample_compare (x # xs) [] = 1"
| "sample_compare (x # xs) (y # ys) =
     (if (of_char x :: nat) < of_char y then -1
      else if (of_char y :: nat) < of_char x then 1
      else sample_compare xs ys)"



definition sample_family :: TaskStore where
  "sample_family =
     \<lparr>project = None,
      sections = [sample_section ''s1'' 0 ''2024-05-01T10:00:00Z'',
                  sample_section ''s2'' 1 ''2024-05-01T10:00:00Z''],
      tasks = [sample_task ''P'' None (Some ''s2'') 1 ''2024-05-01T10:00:00Z'',
               sample_task ''C'' (Some ''P'') (Some ''s1'') 1 ''2024-05-01T10:00:00Z'',
               sample_task ''G'' (Some ''C'') None 1 ''2024-05-01T10:00:00Z'',
               sample_task ''X'' None None 2 ''2024-05-01T10:00:00Z'']\<rparr>"

definition all_hooks :: TaskTreeHooks where
  "all_hooks = \<lparr>has_onTaskAdd = True, has_onTaskRemove = True, has_onSectionAdd = True,
                 has_onSectionRemove = True, has_onTreeChange = True\<rparr>"

text \<open>
  A host's \<open>querySelector\<close> on the strings the view builds: the attribute test with a value
  free of double quotes, backslashes and line breaks finds the first element that
  carries the value; this host rejects any other string with a \<open>SyntaxError\<close>, as browsers
  reject the test with a value that holds a lone double quote.
\<close>

definition between :: "string \<Rightarrow> string \<Rightarrow> string \<Rightarrow> string option" where
  "between pre suf s =
     (if length pre + length suf \<le> length s \<and> take (length pre) s = pre
         \<and> drop (length s - length suf) s = suf
      then Some (take (length s - length pre - length suf) (drop (length pre) s))
      else None)"

definition plain_value :: "string \<Rightarrow> bool" where
  "plain_value v =
     list_all (\<lambda>c. c \<notin> set [CHR 0x22, CHR 0x5C, CHR 0x0A, CHR 0x0C, CHR 0x0D]) v"

definition sample_querySelector :: querySelector where
  "sample_querySelector sel els =
     (case between (''[data-task-id='' @ [CHR 0x22]) (CHR 0x22 # '']'') sel of
        Some v \<Rightarrow>
          if plain_value v then Returned (find (\<lambda>x. x = TaskElement v) els)
          else Threw (SyntaxError sel)
      | None \<Rightarrow>
          (case between (''[data-section-id='' @ [CHR 0x22]) (CHR 0x22 # '']'') sel of
             Some v \<Rightarrow>
               if plain_value v then Returned (find (\<lambda>x. x = SectionElement v) els)
               else Threw (SyntaxError sel)
           | None \<Rightarrow> Threw (SyntaxError sel)))"

definition sample_tree :: TaskTree where
  "sample_tree = (new_TaskTree [] all_hooks 0)\<lparr>store := sample_store\<rparr>"

definition sample_rendered_tree :: TaskTree where
  "sample_rendered_tree = render (snapshot sample_compare sample_store) sample_tree"

text \<open>
  A burst on a tree that shows task \<open>t1\<close> of section \<open>s1\<close>: a task is added and updated, a
  removal of an id that holds a double quote throws, an update of the section is skipped
  as stale, the removal of \<open>t1\<close> starts an exit animation, the debounce timer expires
  during the animation, and the animation is done at 400.
\<close>

definition sample_burst :: "step list" where
  "sample_burst =
     [Call 0 (AddTask (sample_task ''t2'' None None 1 ''2024-05-01T09:00:00Z'')),
      Call 40 (UpdateTask (sample_task ''t2'' None None 0 ''2024-05-01T10:00:00Z'')),
      Call 50 (RemoveTask (''a'' @ [CHR 0x22] @ ''b'')),
      Call 60 (UpdateSection (sample_section ''s1'' 5 ''2024-05-01T09:00:00Z'')),
      Call 100 (RemoveTask ''t1''),
      Expire 0,
      Done 400]"

definition sample_after_burst :: TaskTree where
  "sample_after_burst =
     fold (run_step sample_parse sample_compare sample_querySelector) sample_burst
       sample_rendered_tree"

text \<open>
  Two sequences after which nothing is rendered: an update of section \<open>s1\<close> that is older
  than the stored one, and the addition of a task that is stored already.
\<close>

definition sample_stale_burst :: "step list" where
  "sample_stale_burst = [Call 0 (UpdateSection (sample_section ''s1'' 5 ''2024-05-01T09:00:00Z''))]"

definition sample_throwing_burst :: "step list" where
  "sample_throwing_burst =
     [Call 0 (AddTask (sample_task ''t1'' None None 4 ''2024-05-01T10:00:00Z''))]"

definition sample_widget :: ProjectWidgetScript where
  "sample_widget = \<lparr>projectTitle = ''P'', taskTree = sample_tree\<rparr>"

definition sample_rename :: message where
  "sample_rename =
     \<lparr>event_name = ''project:updated'',
      event_data = Some (ProjectData \<lparr>name = ''Q'', extra_fields = [(''id'', ''p1'')]\<rparr>)\<rparr>"

definition sample_handler :: "message \<Rightarrow> ProjectWidgetScript \<Rightarrow> unit outcome \<times> ProjectWidgetScript" where
  "sample_handler msg w =
     (case processEvent sample_parse sample_compare sample_querySelector msg w of
        Some r \<Rightarrow> r
      | None \<Rightarrow> (Returned (), w))"

definition sample_update_late :: message where
  "sample_update_late =
     \<lparr>event_name = ''item:updated'',
      event_data = Some (TaskData (sample_task ''t9'' None None 2 ''2024-05-01T10:00:00Z''))\<rparr>"

definition sample_update_early :: message where
  "sample_update_early =
     \<lparr>event_name = ''item:updated'',
      event_data = Some (TaskData (sample_task ''t9'' None None 1 ''2024-05-01T09:00:00Z''))\<rparr>"


definition sample_added :: message where
  "sample_added =
     \<lparr>event_name = ''item:added'',
      event_data = Some (TaskData (sample_task ''t9'' None None 0 ''2024-05-01T09:00:00Z''))\<rparr>"

definition sample_queue_1 :: "ProjectWidgetScript EventQueue" where
  "sample_queue_1 =
     (process sample_parse sample_handler sample_update_late
        (new_EventQueue 3000 0 sample_widget))\<lparr>now := 1000\<rparr>"

definition sample_queue_2 :: "ProjectWidgetScript EventQueue" where
  "sample_queue_2 =
     (process sample_parse sample_handler sample_update_early sample_queue_1)\<lparr>now := 2000\<rparr>"

definition sample_queue_3 :: "ProjectWidgetScript EventQueue" where
  "sample_queue_3 = process sample_parse sample_handler sample_added sample_queue_2"

text \<open>
  A host's sort: insertion from the right with \<open>SortCompare\<close>, which is stable. And a queue
  in which three updates of a task that does not exist have failed, with the timestamps
  10:00, an \<open>updated_at\<close> that does not parse, and 09:00.
\<close>

definition sample_sort :: Array_sort_host where
  "sample_sort cmp xs = Array_sort (SortCompare cmp) xs"


section \<open>Properties of the store\<close>

subsection \<open>Map operations\<close>

lemma Map_get_Map_set:
  "Map_get key (Map_set key v m) k = (if k = key v then Some v else Map_get key m k)"
  by (induction m) (auto simp: Map_get_def)

lemma Map_has_iff: "Map_has key m k \<longleftrightarrow> k \<in> key ` set m"
  by (induction m) (auto simp: Map_has_def Map_get_def)

lemma Map_get_None_iff: "Map_get key m k = None \<longleftrightarrow> k \<notin> key ` set m"
  by (induction m) (auto simp: Map_get_def)

lemma Map_get_SomeD: "Map_get key m k = Some v \<Longrightarrow> v \<in> set m \<and> key v = k"
  by (induction m) (auto simp: Map_get_def split: if_splits)

lemma Map_set_absent: "key v \<notin> key ` set m \<Longrightarrow> Map_set key v m = m @ [v]"
  by (induction m) auto

lemma map_key_Map_set_present:
  "key v \<in> key ` set m \<Longrightarrow> map key (Map_set key v m) = map key m"
  by (induction m) auto

lemma isStale_Some: "parse a = Some i \<Longrightarrow> parse b = Some c \<Longrightarrow> isStale parse a b = (i < c)"
  by (simp add: isStale_def)

lemma isStale_None: "parse a = None \<or> parse b = None \<Longrightarrow> \<not> isStale parse a b"
  by (auto simp: isStale_def split: option.splits)

lemma isStale_same: "parse a = parse b \<Longrightarrow> \<not> isStale parse a b"
  by (auto simp: isStale_def split: option.splits)

subsection \<open>Sorting\<close>

lemma set_insert_by: "set (insert_by cmp x xs) = insert x (set xs)"
  by (induction xs) auto

lemma set_Array_sort: "set (Array_sort cmp xs) = set xs"
  unfolding Array_sort_def by (induction xs) (auto simp: set_insert_by)

lemma length_insert_by: "length (insert_by cmp x xs) = Suc (length xs)"
  by (induction xs) auto

lemma length_Array_sort: "length (Array_sort cmp xs) = length xs"
  unfolding Array_sort_def by (induction xs) (auto simp: length_insert_by)







subsection \<open>The nodes of a snapshot\<close>

lemma set_Map_set: "set (Map_set key v m) \<subseteq> insert v (set m)"
  by (induction m) auto

lemma set_fold_Map_set: "set (fold (Map_set key) xs acc) \<subseteq> set xs \<union> set acc"
proof (induction xs arbitrary: acc)
  case Nil
  then show ?case by simp
next
  case (Cons x xs)
  have "set (fold (Map_set key) xs (Map_set key x acc)) \<subseteq> set xs \<union> set (Map_set key x acc)"
    by (rule Cons.IH)
  then show ?case using set_Map_set [of key x acc] by auto
qed

lemma node_ids_build:
  "set (node_ids (build lc nodes d node)) \<subseteq> insert (task_id node) (task_id ` set nodes)"
proof (induction lc nodes d node rule: build.induct)
  case (1 lc nodes d node)
  have "set (node_ids (build lc (filter (\<lambda>c. \<not> is_child_of node c) nodes) (d + 1) c))
          \<subseteq> task_id ` set nodes" if "c \<in> set (filter (is_child_of node) nodes)" for c
    using 1 [OF that] that by auto
  then show ?case
    by (subst build.simps) (auto simp: set_Array_sort)
qed

lemma get_or_empty_group_root:
  "get_or_empty (group_root secs root m) k
     = get_or_empty m k @ (if grouped secs k root then [root] else [])"
  by (auto simp: get_or_empty_def group_root_def grouped_def update_conv' split: option.splits)

lemma get_or_empty_fold_group_root:
  "get_or_empty (fold (group_root secs) roots m) k
     = get_or_empty m k @ filter (grouped secs k) roots"
  by (induction roots arbitrary: m) (simp_all add: get_or_empty_group_root)

lemma snapshot_unfold:
  "snapshot lc st =
     \<lparr>snap_project = project st,
      snap_sections =
        map (\<lambda>s. \<lparr>section_record = s,
                  section_tasks = Array_sort (sortByOrder lc)
                    (filter (grouped (sections st) (sec_id s))
                       (map (build lc (fold (Map_set task_id) (tasks st) []) 0)
                          (filter (\<lambda>n. \<not> has_parent (fold (Map_set task_id) (tasks st) []) n)
                             (fold (Map_set task_id) (tasks st) []))))\<rparr>)
          (Array_sort (\<lambda>a b. section_order a - section_order b) (sections st)),
      unsectioned = Array_sort (sortByOrder lc)
        (filter (\<lambda>root. \<not> truthy (section_id (node_task root)))
           (map (build lc (fold (Map_set task_id) (tasks st) []) 0)
              (filter (\<lambda>n. \<not> has_parent (fold (Map_set task_id) (tasks st) []) n)
                 (fold (Map_set task_id) (tasks st) []))))\<rparr>"
  unfolding snapshot_def Let_def
  using get_or_empty_fold_group_root [of "sections st" _ "[]"]
  by (simp add: get_or_empty_def)

subsection \<open>\<open>build\<close> is the walk from a root\<close>

text \<open>
  Below a root no task is reached twice, so leaving out the children of the nodes on the
  path changes nothing: for a store with distinct ids, \<open>build\<close> applied to a root is the
  one tree the walk of the source relates to it.
\<close>

lemma same_parent:
  "inj_on task_id (set ns) \<Longrightarrow> p \<in> set ns \<Longrightarrow> x \<in> set ns
     \<Longrightarrow> is_child_of p t \<Longrightarrow> is_child_of x t \<Longrightarrow> p = x"
  by (auto simp: is_child_of_def dest: inj_onD)

lemma below_parent:
  assumes "inj_on task_id (set ns)" "x \<in> set ns" "c \<in> set ns"
    and "below ns c t" "is_child_of x t"
  shows "x = c \<or> below ns c x"
  using assms(4)
proof (cases rule: below.cases)
  case child
  then show ?thesis using same_parent [OF assms(1,3,2) _ assms(5)] by simp
next
  case (step p)
  then show ?thesis using same_parent [OF assms(1) step(3) assms(2) step(2) assms(5)] by simp
qed

lemma below_under:
  "below ns c t \<Longrightarrow> c \<in> set ns \<Longrightarrow> is_child_of x c \<Longrightarrow> below ns x t"
proof (induction rule: below.induct)
  case (child t)
  have "below ns x c" using child.prems by (auto intro: below.child)
  then show ?case using child.hyps child.prems(1) by (auto intro: below.step)
next
  case (step t p)
  then show ?case by (auto intro: below.step)
qed

lemma build_walk_path:
  assumes inj: "inj_on task_id (set ns)"
  shows "x \<in> set ns \<Longrightarrow> \<not> below ns x x
     \<Longrightarrow> (\<forall>t. below ns x t \<longrightarrow> (\<forall>a\<in>A. \<not> is_child_of a t))
     \<Longrightarrow> F = filter (\<lambda>c. \<forall>a\<in>A. \<not> is_child_of a c) ns
     \<Longrightarrow> walk lc ns d x (build lc F d x)"
proof (induction lc F d x arbitrary: A rule: build.induct)
  case (1 lc F d x)
  let ?C = "filter (is_child_of x) ns"
  let ?F' = "filter (\<lambda>c. \<not> is_child_of x c) F"
  have C: "filter (is_child_of x) F = ?C"
  proof -
    have "\<forall>a\<in>A. \<not> is_child_of a c" if "c \<in> set ns" "is_child_of x c" for c
      using "1.prems"(3) that by (auto intro: below.child)
    then show ?thesis unfolding "1.prems"(4) by (auto intro: filter_cong)
  qed
  have F': "?F' = filter (\<lambda>c. \<forall>a\<in>insert x A. \<not> is_child_of a c) ns"
    unfolding "1.prems"(4) by (auto intro: filter_cong)
  have rec: "walk lc ns (d + 1) c (build lc ?F' (d + 1) c)" if c: "c \<in> set ?C" for c
  proof (rule "1.IH" [where A = "insert x A"])
    show "c \<in> set (filter (is_child_of x) F)" using c C by simp
    show "c \<in> set ns" using c by simp
    have cx: "is_child_of x c" "c \<in> set ns" using c by simp_all
    show "\<not> below ns c c"
    proof
      assume "below ns c c"
      then have "x = c \<or> below ns c x"
        using below_parent [OF inj "1.prems"(1) cx(2) _ cx(1)] by simp
      then have "below ns x x"
        using cx below_under [of ns c x x] by (auto intro: below.child)
      then show False using "1.prems"(2) by simp
    qed
    show "\<forall>t. below ns c t \<longrightarrow> (\<forall>a\<in>insert x A. \<not> is_child_of a t)"
    proof (intro allI impI ballI)
      fix t a assume t: "below ns c t" and a: "a \<in> insert x A"
      have tx: "below ns x t" using below_under [OF t cx(2) cx(1)] .
      show "\<not> is_child_of a t"
      proof (cases "a = x")
        case False
        then show ?thesis using a tx "1.prems"(3) by simp
      next
        case True
        show ?thesis
        proof
          assume "is_child_of a t"
          then have "x = c \<or> below ns c x"
            using below_parent [OF inj "1.prems"(1) cx(2) t] True by simp
          then have "below ns x x"
            using cx below_under [of ns c x x] by (auto intro: below.child)
          then show False using "1.prems"(2) by simp
        qed
      qed
    qed
    show "?F' = filter (\<lambda>c. \<forall>a\<in>insert x A. \<not> is_child_of a c) ns" by (rule F')
  qed
  have "list_all2 (walk lc ns (d + 1)) ?C (map (build lc ?F' (d + 1)) ?C)"
    using rec by (simp add: list_all2_map2 list_all2_same)
  then have "walk lc ns d x
               (TaskNode x (Array_sort (sortByOrder lc) (map (build lc ?F' (d + 1)) ?C)) d)"
    by (rule walk.intros)
  then show ?case by (subst build.simps) (simp add: C)
qed

lemma build_walk:
  assumes "distinct (map task_id ns)" and "r \<in> set ns" and "\<not> has_parent ns r"
  shows "walk lc ns 0 r (build lc ns 0 r)"
proof (rule build_walk_path [where A = "{}"])
  show "inj_on task_id (set ns)" using assms(1) by (simp add: distinct_map)
  show "r \<in> set ns" by (rule assms(2))
  have np: "\<not> is_child_of p r" if "p \<in> set ns" for p
    using assms(3) that by (auto simp: has_parent_def is_child_of_def truthy_def Map_has_iff
        split: option.splits)
  show "\<not> below ns r r"
  proof
    assume "below ns r r"
    then show False using np assms(2) by (cases rule: below.cases) auto
  qed
qed simp_all

lemma list_all2_unique:
  "list_all2 (\<lambda>x y. P x y \<and> (\<forall>y'. P x y' \<longrightarrow> y = y')) xs ys \<Longrightarrow> list_all2 P xs ys'
     \<Longrightarrow> ys = ys'"
proof (induction xs arbitrary: ys ys')
  case Nil
  then show ?case by simp
next
  case (Cons x xs)
  from Cons.prems(1) obtain y yt where ys: "ys = y # yt" by (cases ys) auto
  from Cons.prems(2) obtain y' yt' where ys': "ys' = y' # yt'" by (cases ys') auto
  have "y = y'" using Cons.prems ys ys' by simp
  moreover have "yt = yt'"
    by (rule Cons.IH) (use Cons.prems ys ys' in simp_all)
  ultimately show ?case using ys ys' by simp
qed

lemma walk_unique:
  "walk lc ns d x n \<Longrightarrow> walk lc ns d x n' \<Longrightarrow> n = n'"
proof (induction arbitrary: n' rule: walk.induct)
  case (1 d node cs)
  from "1.prems" obtain cs' where
    n': "n' = TaskNode node (Array_sort (sortByOrder lc) cs') d"
    and w: "list_all2 (walk lc ns (d + 1)) (filter (is_child_of node) ns) cs'"
    by (cases rule: walk.cases) auto
  have "list_all2 (\<lambda>c n. walk lc ns (d + 1) c n \<and> (\<forall>n'. walk lc ns (d + 1) c n' \<longrightarrow> n = n'))
          (filter (is_child_of node) ns) cs"
    using "1.IH" by (rule list_all2_mono) blast
  then have "cs = cs'" using w by (rule list_all2_unique)
  then show ?case using n' by simp
qed

subsection \<open>Sorted sibling lists\<close>





lemma list_all_Array_sort: "list_all P (Array_sort cmp xs) = list_all P xs"
  by (simp add: list_all_iff set_Array_sort)



subsection \<open>Independence of the order of insertion\<close>












subsection \<open>The cascade of \<open>removeTask\<close>\<close>

text \<open>
  The invariant of the loop, relative to the list \<open>ts0\<close> it started from and the set \<open>R\<close> of
  the ids popped so far: the stored tasks are those of \<open>ts0\<close> whose id is not in \<open>R\<close>, the
  queue and \<open>R\<close> hold only ids that lead back to the target, a stored task whose parent is
  in \<open>R\<close> is queued, and the target is queued or popped.
\<close>

lemma removeTask_loop_inv:
  assumes "ts = filter (\<lambda>t. task_id t \<notin> R) ts0"
    and "set q \<subseteq> {x. leads_back ts0 target x}"
    and "R \<subseteq> {x. leads_back ts0 target x}"
    and "\<forall>t\<in>set ts. \<forall>p. parent_id t = Some p \<and> p \<in> R \<longrightarrow> task_id t \<in> set q"
    and "target \<in> R \<union> set q"
  shows "removeTask_loop q ts = filter (\<lambda>t. \<not> leads_back ts0 target (task_id t)) ts0"
  using assms
proof (induction q ts arbitrary: R rule: removeTask_loop.induct)
  case (1 ts)
  have "x \<in> R" if "leads_back ts0 target x" for x
    using that
  proof (induction rule: leads_back.induct)
    case self
    then show ?case using 1 by simp
  next
    case (child t p)
    show ?case
    proof (rule ccontr)
      assume "task_id t \<notin> R"
      with child have "t \<in> set ts" using 1 by simp
      with child 1 show False by auto
    qed
  qed
  with 1 have eq: "(\<lambda>t. task_id t \<notin> R) = (\<lambda>t. \<not> leads_back ts0 target (task_id t))"
    by auto
  have "removeTask_loop [] ts = filter (\<lambda>t. task_id t \<notin> R) ts0"
    using "1.prems"(1) by simp
  then show ?case by (simp only: eq)
next
  case (2 current queue ts)
  define ts' where "ts' = Map_delete task_id current ts"
  define q' where "q' = queue @ map task_id (filter (\<lambda>task. parent_id task = Some current) ts')"
  have cur: "leads_back ts0 target current" using 2 by simp
  have a1: "ts' = filter (\<lambda>t. task_id t \<notin> insert current R) ts0"
    using 2 by (auto simp: ts'_def Map_delete_def intro: filter_cong)
  have sub: "set ts' \<subseteq> set ts0" using a1 by auto
  have a2: "set q' \<subseteq> {x. leads_back ts0 target x}"
    using 2 sub cur by (auto simp: q'_def intro: leads_back.child)
  have a3: "insert current R \<subseteq> {x. leads_back ts0 target x}"
    using 2 cur by simp
  have a4: "\<forall>t\<in>set ts'. \<forall>p. parent_id t = Some p \<and> p \<in> insert current R \<longrightarrow> task_id t \<in> set q'"
  proof (intro ballI allI impI)
    fix t p assume t: "t \<in> set ts'" and p: "parent_id t = Some p \<and> p \<in> insert current R"
    show "task_id t \<in> set q'"
    proof (cases "p = current")
      case True
      with t p show ?thesis by (auto simp: q'_def)
    next
      case False
      with p have "p \<in> R" by simp
      moreover have "t \<in> set ts" "task_id t \<noteq> current"
        using t by (auto simp: ts'_def Map_delete_def)
      ultimately have "task_id t \<in> set (current # queue)" using 2 p by blast
      with \<open>task_id t \<noteq> current\<close> show ?thesis by (simp add: q'_def)
    qed
  qed
  have a5: "target \<in> insert current R \<union> set q'"
    using 2 by (auto simp: q'_def)
  have "removeTask_loop q' ts' = filter (\<lambda>t. \<not> leads_back ts0 target (task_id t)) ts0"
    using "2.IH" [OF ts'_def a1 a2 [unfolded q'_def] a3 a4 [unfolded q'_def] a5 [unfolded q'_def]]
    by (simp add: q'_def)
  then show ?case by (simp add: ts'_def q'_def Let_def)
qed

lemma removeTask_loop_eq:
  "removeTask_loop [target] ts = filter (\<lambda>t. \<not> leads_back ts target (task_id t)) ts"
  by (rule removeTask_loop_inv [where R = "{}"]) (auto intro: leads_back.self)

lemma set_snapshot_ids: "set (snapshot_ids (snapshot lc st)) \<subseteq> task_id ` set (tasks st)"
proof -
  let ?nodes = "fold (Map_set task_id) (tasks st) []"
  have n: "set ?nodes \<subseteq> set (tasks st)"
    using set_fold_Map_set [of task_id "tasks st" "[]"] by simp
  have b: "set (node_ids (build lc ?nodes 0 node)) \<subseteq> task_id ` set (tasks st)"
    if "node \<in> set ?nodes" for node
    using node_ids_build [of lc ?nodes 0 node] that n by auto
  show ?thesis
    unfolding snapshot_ids_def snapshot_unfold
    using b by (auto simp: set_Array_sort)
qed

lemma sample_family_removeTask:
  "Map_has task_id (tasks sample_family) ''P''
   \<and> tasks (removeTask ''P'' sample_family) = [sample_task ''X'' None None 2 ''2024-05-01T10:00:00Z'']
   \<and> snapshot_ids (snapshot sample_compare (removeTask ''P'' sample_family)) = [''X'']"
  by code_simp

subsection \<open>The cascade of \<open>removeSection\<close>\<close>

text \<open>
  Removing one task after another: the tasks that remain are those of the first list that
  lead back to none of the ids removed so far.
\<close>

lemma leads_back_trans:
  "leads_back ts b c \<Longrightarrow> leads_back ts a b \<Longrightarrow> leads_back ts a c"
  by (induction rule: leads_back.induct) (auto intro: leads_back.child)

lemma leads_back_mono:
  "leads_back ts a x \<Longrightarrow> set ts \<subseteq> set ts' \<Longrightarrow> leads_back ts' a x"
  by (induction rule: leads_back.induct) (auto intro: leads_back.intros)

lemma leads_back_survivors:
  assumes "leads_back ts0 a x"
    and "\<not> (\<exists>r\<in>Rs. leads_back ts0 r x)"
  shows "leads_back (filter (\<lambda>t. \<not> (\<exists>r\<in>Rs. leads_back ts0 r (task_id t))) ts0) a x"
  using assms
proof (induction rule: leads_back.induct)
  case self
  show ?case by (rule leads_back.self)
next
  case (child t p)
  have "\<not> (\<exists>r\<in>Rs. leads_back ts0 r p)"
    using child.prems child.hyps(1,2) by (auto intro: leads_back.child)
  then have "leads_back (filter (\<lambda>t. \<not> (\<exists>r\<in>Rs. leads_back ts0 r (task_id t))) ts0) a p"
    by (rule child.IH)
  moreover have "t \<in> set (filter (\<lambda>t. \<not> (\<exists>r\<in>Rs. leads_back ts0 r (task_id t))) ts0)"
    using child by simp
  ultimately show ?case using child.hyps(2) by (rule leads_back.child [rotated 2])
qed

lemma removeTask_frame: "project (removeTask i st) = project st \<and> sections (removeTask i st) = sections st"
  by (simp add: removeTask_def)

lemma fold_removeTask:
  assumes "tasks st = filter (\<lambda>t. \<not> (\<exists>r\<in>Rs. leads_back ts0 r (task_id t))) ts0"
    and "task_id ` set rs \<subseteq> task_id ` set ts0"
  shows "tasks (fold (\<lambda>task. removeTask (task_id task)) rs st)
          = filter (\<lambda>t. \<not> (\<exists>r\<in>Rs \<union> task_id ` set rs. leads_back ts0 r (task_id t))) ts0"
  using assms
proof (induction rs arbitrary: st Rs)
  case Nil
  then show ?case by simp
next
  case (Cons r rs)
  let ?i = "task_id r"
  let ?keep = "\<lambda>Rs t. \<not> (\<exists>r\<in>Rs. leads_back ts0 r (task_id t))"
  have step: "tasks (removeTask ?i st) = filter (?keep (insert ?i Rs)) ts0"
  proof (cases "Map_has task_id (tasks st) ?i")
    case True
    have eq: "leads_back (tasks st) ?i (task_id t) \<longleftrightarrow> leads_back ts0 ?i (task_id t)"
      if "t \<in> set (tasks st)" for t
    proof
      assume "leads_back (tasks st) ?i (task_id t)"
      then show "leads_back ts0 ?i (task_id t)"
        by (rule leads_back_mono) (simp add: Cons.prems(1))
    next
      assume "leads_back ts0 ?i (task_id t)"
      moreover have "\<not> (\<exists>r\<in>Rs. leads_back ts0 r (task_id t))"
        using that by (simp add: Cons.prems(1))
      ultimately show "leads_back (tasks st) ?i (task_id t)"
        unfolding Cons.prems(1) by (rule leads_back_survivors)
    qed
    have "tasks (removeTask ?i st)
            = filter (\<lambda>t. \<not> leads_back (tasks st) ?i (task_id t)) (tasks st)"
      using True by (simp add: removeTask_def removeTask_loop_eq del: removeTask_loop.simps)
    also have "\<dots> = filter (\<lambda>t. \<not> leads_back ts0 ?i (task_id t)) (tasks st)"
      using eq by (auto intro: filter_cong)
    also have "\<dots> = filter (?keep (insert ?i Rs)) ts0"
      unfolding Cons.prems(1) by (auto intro: filter_cong)
    finally show ?thesis .
  next
    case False
    have "?i \<in> task_id ` set ts0" using Cons.prems(2) by simp
    then obtain t0 where t0: "t0 \<in> set ts0" "task_id t0 = ?i" by auto
    have "t0 \<notin> set (tasks st)"
      using False t0 by (metis Map_has_iff imageI)
    then obtain r0 where r0: "r0 \<in> Rs" "leads_back ts0 r0 ?i"
      using t0 by (auto simp: Cons.prems(1))
    have "?keep (insert ?i Rs) t = ?keep Rs t" for t
      using r0 by (auto intro: leads_back_trans)
    then have "filter (?keep (insert ?i Rs)) ts0 = filter (?keep Rs) ts0"
      by (intro filter_cong) simp_all
    moreover have "tasks (removeTask ?i st) = tasks st"
      using False by (simp add: removeTask_def)
    ultimately show ?thesis by (simp only: Cons.prems(1))
  qed
  have "tasks (fold (\<lambda>task. removeTask (task_id task)) rs (removeTask ?i st))
          = filter (?keep (insert ?i Rs \<union> task_id ` set rs)) ts0"
    by (rule Cons.IH [OF step]) (use Cons.prems(2) in auto)
  then show ?case by simp
qed

lemma fold_removeTask_frame:
  "project (fold (\<lambda>task. removeTask (task_id task)) rs st) = project st
   \<and> sections (fold (\<lambda>task. removeTask (task_id task)) rs st) = sections st"
  by (induction rs arbitrary: st) (simp_all add: removeTask_frame)

lemma sample_family_removeSection:
  "Map_has sec_id (sections sample_family) ''s1''
   \<and> \<not> Map_has sec_id (sections sample_family) ''s9''
   \<and> tasks (removeSection ''s1'' sample_family)
       = [sample_task ''P'' None (Some ''s2'') 1 ''2024-05-01T10:00:00Z'',
          sample_task ''X'' None None 2 ''2024-05-01T10:00:00Z'']"
  by code_simp

subsection \<open>The ids stored stay distinct\<close>

text \<open>
  Every operation keeps the ids of the tasks and of the sections distinct, so the lists of
  the model are the maps of the source in every state the store reaches.
\<close>

lemma keys_Map_set: "set (map key (Map_set key v m)) = insert (key v) (set (map key m))"
  by (induction m) auto

lemma distinct_Map_set: "distinct (map key m) \<Longrightarrow> distinct (map key (Map_set key v m))"
proof (induction m)
  case Nil
  then show ?case by simp
next
  case (Cons x m)
  then show ?case using keys_Map_set [of key v m] by (auto simp: image_iff)
qed

lemma distinct_fold_Map_set:
  "distinct (map key acc) \<Longrightarrow> distinct (map key (fold (Map_set key) xs acc))"
  by (induction xs arbitrary: acc) (simp_all add: distinct_Map_set)

lemma distinct_Map_delete: "distinct (map key m) \<Longrightarrow> distinct (map key (Map_delete key k m))"
  by (simp add: Map_delete_def distinct_map_filter)

lemma distinct_removeTask: "distinct (map task_id (tasks st)) \<Longrightarrow> distinct (map task_id (tasks (removeTask i st)))"
  by (simp add: removeTask_def removeTask_loop_eq distinct_map_filter del: removeTask_loop.simps)

lemma distinct_fold_removeTask:
  "distinct (map task_id (tasks st))
     \<Longrightarrow> distinct (map task_id (tasks (fold (\<lambda>task. removeTask (task_id task)) rs st)))"
  by (induction rs arbitrary: st) (simp_all add: distinct_removeTask)

lemma distinct_ids_kept:
  "distinct_ids empty_store"
  "distinct_ids (organize data st)"
  "distinct_ids st \<Longrightarrow> distinct_ids (snd (addTask t st))"
  "distinct_ids st \<Longrightarrow> distinct_ids (snd (updateTask parse t st))"
  "distinct_ids st \<Longrightarrow> distinct_ids (snd (addSection s st))"
  "distinct_ids st \<Longrightarrow> distinct_ids (snd (updateSection parse s st))"
  "distinct_ids st \<Longrightarrow> distinct_ids (removeTask i st)"
  "distinct_ids st \<Longrightarrow> distinct_ids (removeSection i st)"
proof -
  show "distinct_ids empty_store" by (simp add: distinct_ids_def empty_store_def)
  show "distinct_ids (organize data st)"
    by (simp add: distinct_ids_def organize_def distinct_fold_Map_set)
  show "distinct_ids st \<Longrightarrow> distinct_ids (snd (addTask t st))"
    by (simp add: distinct_ids_def addTask_def distinct_Map_set)
  show "distinct_ids st \<Longrightarrow> distinct_ids (snd (updateTask parse t st))"
    by (simp add: distinct_ids_def updateTask_def distinct_Map_set split: option.splits)
  show "distinct_ids st \<Longrightarrow> distinct_ids (snd (addSection s st))"
    by (simp add: distinct_ids_def addSection_def distinct_Map_set)
  show "distinct_ids st \<Longrightarrow> distinct_ids (snd (updateSection parse s st))"
    by (simp add: distinct_ids_def updateSection_def distinct_Map_set split: option.splits)
  show "distinct_ids st \<Longrightarrow> distinct_ids (removeTask i st)"
    using distinct_removeTask [of st i] removeTask_frame [of i st] by (simp add: distinct_ids_def)
  show "distinct_ids (removeSection i st)" if w: "distinct_ids st"
  proof -
    let ?st' = "fold (\<lambda>task. removeTask (task_id task))
                  (filter (\<lambda>task. section_id task = Some i) (tasks st)) st"
    have "distinct (map task_id (tasks ?st'))"
      using w by (intro distinct_fold_removeTask) (simp add: distinct_ids_def)
    moreover have "sections ?st' = sections st"
      using fold_removeTask_frame by blast
    ultimately show ?thesis
      using w by (simp add: distinct_ids_def removeSection_def Let_def distinct_Map_delete)
  qed
qed

section \<open>Properties of the event queue\<close>

subsection \<open>What a call of the handler and a replay change\<close>

lemma call_handler_fields:
  "pendingEvents (snd (call_handler handler ev q)) = pendingEvents q"
  "pendingEventTimers (snd (call_handler handler ev q)) = pendingEventTimers q"
  "queue_timers (snd (call_handler handler ev q)) = queue_timers q"
  "queue_next_handle (snd (call_handler handler ev q)) = queue_next_handle q"
  "reorderDelayMs (snd (call_handler handler ev q)) = reorderDelayMs q"
  "now (snd (call_handler handler ev q)) = now q"
  "reported (snd (call_handler handler ev q)) = reported q"
  "handled (snd (call_handler handler ev q)) = handled q @ [ev]"
  "handler_state (snd (call_handler handler ev q)) = snd (handler ev (handler_state q))"
  "fst (call_handler handler ev q) = fst (handler ev (handler_state q))"
  by (simp_all add: call_handler_def split: prod.splits)

lemma replay_fields:
  "pendingEvents (replay handler ev q) = pendingEvents q"
  "pendingEventTimers (replay handler ev q) = pendingEventTimers q"
  "queue_timers (replay handler ev q) = queue_timers q"
  "queue_next_handle (replay handler ev q) = queue_next_handle q"
  "reorderDelayMs (replay handler ev q) = reorderDelayMs q"
  "now (replay handler ev q) = now q"
  "handled (replay handler ev q) = handled q @ [ev]"
  "handler_state (replay handler ev q) = snd (handler ev (handler_state q))"
  "reported (replay handler ev q) = reported q @ reports_of [fst (handler ev (handler_state q))]"
  by (auto simp: replay_def call_handler_def onError_def split: prod.splits outcome.splits)

lemma reports_of_append: "reports_of (xs @ ys) = reports_of xs @ reports_of ys"
  by (induction xs rule: reports_of.induct) auto

lemma reports_of_Cons: "reports_of (r # rs) = reports_of [r] @ reports_of rs"
  by (cases r) simp_all

lemma fold_replay_fields:
  "pendingEvents (fold (replay handler) ms q) = pendingEvents q"
  "pendingEventTimers (fold (replay handler) ms q) = pendingEventTimers q"
  "queue_timers (fold (replay handler) ms q) = queue_timers q"
  "queue_next_handle (fold (replay handler) ms q) = queue_next_handle q"
  "reorderDelayMs (fold (replay handler) ms q) = reorderDelayMs q"
  "now (fold (replay handler) ms q) = now q"
  "handled (fold (replay handler) ms q) = handled q @ ms"
  "handler_state (fold (replay handler) ms q) = replay_state handler ms (handler_state q)"
  by (induction ms arbitrary: q; simp add: replay_fields)+

lemma fold_replay_reported:
  "reported (fold (replay handler) ms q)
     = reported q @ reports_of (replay_outcomes handler ms (handler_state q))"
proof (induction ms arbitrary: q)
  case Nil
  then show ?case by simp
next
  case (Cons m ms)
  show ?case
    using Cons [of "replay handler m q"]
      reports_of_Cons [of "fst (handler m (handler_state q))"
        "replay_outcomes handler ms (snd (handler m (handler_state q)))"]
    by (simp add: replay_fields)
qed

subsection \<open>The order of a replay\<close>








subsection \<open>Arming and cancelling timers\<close>

lemma queue_inv_call_handler: "queue_inv q \<Longrightarrow> queue_inv (snd (call_handler handler ev q))"
  by (simp only: queue_inv_def call_handler_fields)


lemma queueForReorder_fields:
  "handled (queueForReorder e ev ts q) = handled q"
  "reported (queueForReorder e ev ts q) = reported q"
  "handler_state (queueForReorder e ev ts q) = handler_state q"
  "now (queueForReorder e ev ts q) = now q"
  "reorderDelayMs (queueForReorder e ev ts q) = reorderDelayMs q"
  "queue_next_handle (queueForReorder e ev ts q) = Suc (queue_next_handle q)"
  "pendingEvents (queueForReorder e ev ts q)
     = AList.update e ((case map_of (pendingEvents q) e of None \<Rightarrow> [] | Some l \<Rightarrow> l) @ [(ev, ts)])
         (pendingEvents q)"
  "pendingEventTimers (queueForReorder e ev ts q)
     = AList.update e (queue_next_handle q) (pendingEventTimers q)"
  "queue_timers (queueForReorder e ev ts q)
     = filter (\<lambda>(h, d, e'). Some h \<noteq> map_of (pendingEventTimers q) e) (queue_timers q)
       @ [(queue_next_handle q, now q + reorderDelayMs q, e)]"
  by (auto simp: queueForReorder_def Let_def split: option.splits intro: filter_cong)

lemma inv_registered:
  "queue_inv q \<Longrightarrow> (h, d, e) \<in> set (queue_timers q) \<Longrightarrow>
     map_of (pendingEventTimers q) e = Some h \<and> h < queue_next_handle q
     \<and> (\<exists>l. map_of (pendingEvents q) e = Some l \<and> l \<noteq> [])"
  by (fastforce simp: queue_inv_def list_all_iff split: option.splits)

lemma inv_owner:
  "queue_inv q \<Longrightarrow> map_of (pendingEventTimers q) e = Some h \<Longrightarrow>
     (h, d, e') \<in> set (queue_timers q) \<Longrightarrow> e' = e"
  by (fastforce simp: queue_inv_def list_all_iff)

lemma inv_below:
  "queue_inv q \<Longrightarrow> map_of (pendingEventTimers q) e = Some h \<Longrightarrow> h < queue_next_handle q"
  by (fastforce simp: queue_inv_def list_all_iff)

lemma cancelled_timers:
  assumes "queue_inv q"
  shows "filter (\<lambda>(h, d, e'). Some h \<noteq> map_of (pendingEventTimers q) e) (queue_timers q)
           = filter (\<lambda>(h, d, e'). e' \<noteq> e) (queue_timers q)"
proof (rule filter_cong [OF refl])
  fix x assume x: "x \<in> set (queue_timers q)"
  obtain h d e' where t: "x = (h, d, e')" by (cases x) auto
  have reg: "map_of (pendingEventTimers q) e' = Some h"
    using inv_registered [OF assms] x t by blast
  have "map_of (pendingEventTimers q) e = Some h \<longleftrightarrow> e' = e"
    using inv_owner [OF assms] x t reg by blast
  then show "(case x of (h, d, e') \<Rightarrow> Some h \<noteq> map_of (pendingEventTimers q) e)
          = (case x of (h, d, e') \<Rightarrow> e' \<noteq> e)"
    using t by auto
qed


lemma set_AList_update: "set (AList.update k v al) \<subseteq> insert (k, v) (set al)"
  by (induction al) auto

lemma queue_inv_queueForReorder:
  assumes inv: "queue_inv q"
  shows "queue_inv (queueForReorder e ev ts q)"
proof -
  let ?n = "queue_next_handle q"
  let ?T = "filter (\<lambda>(h, d, e'). e' \<noteq> e) (queue_timers q)"
  have T: "queue_timers (queueForReorder e ev ts q) = ?T @ [(?n, now q + reorderDelayMs q, e)]"
    by (simp add: queueForReorder_fields cancelled_timers [OF inv])
  have old: "map_of (pendingEventTimers q) e' = Some h \<and> h < ?n \<and> e' \<noteq> e
             \<and> (\<exists>l. map_of (pendingEvents q) e' = Some l \<and> l \<noteq> [])"
    if "(h, d, e') \<in> set ?T" for h d e'
  proof -
    have m: "(h, d, e') \<in> set (queue_timers q)" "e' \<noteq> e" using that by auto
    show ?thesis using inv_registered [OF inv m(1)] m(2) by blast
  qed
  have "distinct (map fst (queue_timers q))" using inv by (simp add: queue_inv_def)
  then have "distinct (map fst ?T)" by (rule distinct_map_filter)
  moreover have "?n \<notin> fst ` set ?T"
  proof
    assume "?n \<in> fst ` set ?T"
    then obtain d e' where "(?n, d, e') \<in> set ?T" by force
    from old [OF this] show False by simp
  qed
  ultimately have d1: "distinct (map fst (?T @ [(?n, now q + reorderDelayMs q, e)]))"
    by simp
  have d2: "distinct (map fst (AList.update e ?n (pendingEventTimers q)))"
    using inv by (simp add: queue_inv_def distinct_update)
  have t3: "list_all (\<lambda>(h, d, e').
               map_of (AList.update e ?n (pendingEventTimers q)) e' = Some h
               \<and> (case map_of (AList.update e
                         ((case map_of (pendingEvents q) e of None \<Rightarrow> [] | Some l \<Rightarrow> l) @ [(ev, ts)])
                         (pendingEvents q)) e' of None \<Rightarrow> False | Some l \<Rightarrow> l \<noteq> []))
            (?T @ [(?n, now q + reorderDelayMs q, e)])"
    unfolding list_all_iff
  proof (intro ballI)
    fix x assume x: "x \<in> set (?T @ [(?n, now q + reorderDelayMs q, e)])"
    obtain h d e' where t: "x = (h, d, e')" by (cases x) auto
    show "case x of (h, d, e') \<Rightarrow>
               map_of (AList.update e ?n (pendingEventTimers q)) e' = Some h
               \<and> (case map_of (AList.update e
                         ((case map_of (pendingEvents q) e of None \<Rightarrow> [] | Some l \<Rightarrow> l) @ [(ev, ts)])
                         (pendingEvents q)) e' of None \<Rightarrow> False | Some l \<Rightarrow> l \<noteq> [])"
    proof (cases "x \<in> set ?T")
      case True
      then show ?thesis using old [of h d e'] t by (auto simp: update_conv')
    next
      case False
      with x t show ?thesis by (auto simp: update_conv')
    qed
  qed
  have t4: "list_all (\<lambda>(e', h). h < Suc ?n
               \<and> list_all (\<lambda>(h', d, e''). h' = h \<longrightarrow> e'' = e')
                    (?T @ [(?n, now q + reorderDelayMs q, e)]))
            (AList.update e ?n (pendingEventTimers q))"
    unfolding list_all_iff
  proof (intro ballI)
    fix x assume x: "x \<in> set (AList.update e ?n (pendingEventTimers q))"
    obtain e' h where t: "x = (e', h)" by (cases x) auto
    from x consider "x = (e, ?n)" | "x \<in> set (pendingEventTimers q)"
      using set_AList_update [of e ?n "pendingEventTimers q"] by auto
    then show "case x of (e', h) \<Rightarrow> h < Suc ?n
               \<and> (\<forall>x\<in>set (?T @ [(?n, now q + reorderDelayMs q, e)]).
                     case x of (h', d, e'') \<Rightarrow> h' = h \<longrightarrow> e'' = e')"
    proof cases
      case 1
      then show ?thesis using old by fastforce
    next
      case 2
      then have "h < ?n" "\<forall>y\<in>set (queue_timers q). case y of (h', d, e'') \<Rightarrow> h' = h \<longrightarrow> e'' = e'"
        using inv t by (auto simp: queue_inv_def list_all_iff)
      then show ?thesis using t by auto
    qed
  qed
  show ?thesis
    unfolding queue_inv_def T
    using d1 d2 t3 t4 by (simp only: queueForReorder_fields)
qed

subsection \<open>\<open>process\<close> and the expiry of a timer\<close>


lemma process_returning:
  assumes "fst (handler ev (handler_state q)) = Returned u"
  shows "process parse handler ev q = snd (call_handler handler ev q)"
proof -
  obtain q' where c: "call_handler handler ev q = (Returned u, q')"
    using assms(1) call_handler_fields(10) [of handler ev q]
    by (cases "call_handler handler ev q") simp
  then show ?thesis by (simp add: process_def)
qed

lemma processPending_buffered:
  assumes "map_of (pendingEvents q) e = Some evs" and "evs \<noteq> []"
  shows "processPending hsort handler e q
           = (fold (replay handler) (map fst (hsort by_timestamp evs)) q)
               \<lparr>pendingEvents := AList.delete e (pendingEvents q),
                pendingEventTimers := AList.delete e (pendingEventTimers q)\<rparr>"
  using assms by (simp add: processPending_def Let_def fold_replay_fields)

lemma find_timer:
  "distinct (map fst xs) \<Longrightarrow> (h, d, e) \<in> set xs \<Longrightarrow>
     find (\<lambda>(h', d, e). h' = h) xs = Some (h, d, e)"
  by (induction xs) (auto simp: rev_image_eqI)

lemma expire_live:
  assumes "distinct (map fst (queue_timers q))" and "(h, d, e) \<in> set (queue_timers q)"
  shows "expire hsort handler h q
           = processPending hsort handler e
               (q\<lparr>queue_timers := filter (\<lambda>(h', d, e). h' \<noteq> h) (queue_timers q),
                  now := max (now q) d\<rparr>)"
  using find_timer [OF assms] by (simp add: expire_def)

lemma expire_fields:
  assumes inv: "queue_inv q" and live: "(h, d, e) \<in> set (queue_timers q)"
    and buf: "map_of (pendingEvents q) e = Some evs"
  shows "handled (expire hsort handler h q) = handled q @ map fst (hsort by_timestamp evs)"
    and "reported (expire hsort handler h q)
           = reported q @ reports_of (replay_outcomes handler
                                        (map fst (hsort by_timestamp evs)) (handler_state q))"
    and "handler_state (expire hsort handler h q)
           = replay_state handler (map fst (hsort by_timestamp evs)) (handler_state q)"
    and "queue_timers (expire hsort handler h q) = filter (\<lambda>(h', d, e). h' \<noteq> h) (queue_timers q)"
    and "pendingEvents (expire hsort handler h q) = AList.delete e (pendingEvents q)"
    and "pendingEventTimers (expire hsort handler h q) = AList.delete e (pendingEventTimers q)"
    and "queue_next_handle (expire hsort handler h q) = queue_next_handle q"
proof -
  have ne: "evs \<noteq> []" using inv_registered [OF inv live] buf by auto
  have d: "distinct (map fst (queue_timers q))" using inv by (simp add: queue_inv_def)
  let ?q' = "q\<lparr>queue_timers := filter (\<lambda>(h', d, e). h' \<noteq> h) (queue_timers q),
                now := max (now q) d\<rparr>"
  have e: "expire hsort handler h q
             = (fold (replay handler) (map fst (hsort by_timestamp evs)) ?q')
                 \<lparr>pendingEvents := AList.delete e (pendingEvents ?q'),
                  pendingEventTimers := AList.delete e (pendingEventTimers ?q')\<rparr>"
    unfolding expire_live [OF d live]
    by (rule processPending_buffered) (simp_all add: buf ne)
  show "handled (expire hsort handler h q) = handled q @ map fst (hsort by_timestamp evs)"
    by (simp add: e fold_replay_fields)
  show "reported (expire hsort handler h q)
           = reported q @ reports_of (replay_outcomes handler
                                        (map fst (hsort by_timestamp evs)) (handler_state q))"
    by (simp add: e fold_replay_reported)
  show "handler_state (expire hsort handler h q)
           = replay_state handler (map fst (hsort by_timestamp evs)) (handler_state q)"
    by (simp add: e fold_replay_fields)
  show "queue_timers (expire hsort handler h q) = filter (\<lambda>(h', d, e). h' \<noteq> h) (queue_timers q)"
    by (simp add: e fold_replay_fields)
  show "pendingEvents (expire hsort handler h q) = AList.delete e (pendingEvents q)"
    by (simp add: e)
  show "pendingEventTimers (expire hsort handler h q) = AList.delete e (pendingEventTimers q)"
    by (simp add: e)
  show "queue_next_handle (expire hsort handler h q) = queue_next_handle q"
    by (simp add: e fold_replay_fields)
qed

lemma other_timers:
  assumes inv: "queue_inv q" and live: "(h, d, e) \<in> set (queue_timers q)"
    and other: "(h', d', e') \<in> set (queue_timers q)" "h' \<noteq> h"
  shows "e' \<noteq> e"
  using inv_registered [OF inv live] inv_registered [OF inv other(1)] other(2) by auto

lemma set_AList_delete: "set (AList.delete k al) \<subseteq> set al"
  by (auto simp: AList.delete_eq)

lemma queue_inv_expire:
  assumes inv: "queue_inv q" and live: "(h, d, e) \<in> set (queue_timers q)"
  shows "queue_inv (expire hsort handler h q)" and "timers_of e (expire hsort handler h q) = []"
proof -
  obtain evs where buf: "map_of (pendingEvents q) e = Some evs"
    using inv_registered [OF inv live] by auto
  note f = expire_fields [OF inv live buf]
  let ?T = "filter (\<lambda>(h', d, e). h' \<noteq> h) (queue_timers q)"
  have old: "(h', d', e') \<in> set (queue_timers q) \<and> e' \<noteq> e" if "(h', d', e') \<in> set ?T" for h' d' e'
    using that other_timers [OF inv live, of h' d' e'] by auto
  show "timers_of e (expire hsort handler h q) = []"
    using old by (auto simp: timers_of_def f filter_empty_conv)
  have d1: "distinct (map fst ?T)"
    using inv by (simp add: queue_inv_def distinct_map_filter)
  have d2: "distinct (map fst (AList.delete e (pendingEventTimers q)))"
    using inv by (simp add: queue_inv_def distinct_delete)
  have t3: "list_all (\<lambda>(h, d, e').
               map_of (AList.delete e (pendingEventTimers q)) e' = Some h
               \<and> (case map_of (AList.delete e (pendingEvents q)) e' of
                     None \<Rightarrow> False | Some l \<Rightarrow> l \<noteq> [])) ?T"
    unfolding list_all_iff
  proof (intro ballI)
    fix x assume x: "x \<in> set ?T"
    obtain h' d' e' where t: "x = (h', d', e')" by (cases x) auto
    from old [of h' d' e'] x t have m: "(h', d', e') \<in> set (queue_timers q)" "e' \<noteq> e"
      by simp_all
    show "case x of (h, d, e') \<Rightarrow>
               map_of (AList.delete e (pendingEventTimers q)) e' = Some h
               \<and> (case map_of (AList.delete e (pendingEvents q)) e' of
                     None \<Rightarrow> False | Some l \<Rightarrow> l \<noteq> [])"
      using inv_registered [OF inv m(1)] m(2) t by (auto simp: delete_conv')
  qed
  have t4: "list_all (\<lambda>(e', h). h < queue_next_handle q
               \<and> list_all (\<lambda>(h', d, e''). h' = h \<longrightarrow> e'' = e') ?T)
            (AList.delete e (pendingEventTimers q))"
    unfolding list_all_iff
  proof (intro ballI)
    fix x assume x: "x \<in> set (AList.delete e (pendingEventTimers q))"
    then have "x \<in> set (pendingEventTimers q)" using set_AList_delete by fastforce
    then show "case x of (e', h) \<Rightarrow> h < queue_next_handle q
               \<and> (\<forall>x\<in>set ?T. case x of (h', d, e'') \<Rightarrow> h' = h \<longrightarrow> e'' = e')"
      using inv by (auto simp: queue_inv_def list_all_iff)
  qed
  show "queue_inv (expire hsort handler h q)"
    unfolding queue_inv_def using d1 d2 t3 t4 by (simp only: f)
qed

subsection \<open>The sample run\<close>




lemma sample_queue_reordered:
  "queue_timers sample_queue_3 = [(1, 4000, ''t9'')]
   \<and> reported (expire sample_sort sample_handler 1 sample_queue_3) = []
   \<and> handled (expire sample_sort sample_handler 1 sample_queue_3)
       = [sample_update_late, sample_update_early, sample_added, sample_update_early,
          sample_update_late]
   \<and> tasks (store (taskTree (handler_state (expire sample_sort sample_handler 1 sample_queue_3))))
       = [sample_task ''t1'' None (Some ''s1'') 0 ''2024-05-01T10:00:00Z'',
          sample_task ''t9'' None None 2 ''2024-05-01T10:00:00Z'']"
  by code_simp


subsection \<open>The invariant is kept\<close>

text \<open>
  The invariant holds of a new queue and is kept by every operation, so it holds of every
  state the queue reaches.
\<close>

lemma queue_inv_new: "queue_inv (new_EventQueue delay t s)"
  by (simp add: queue_inv_def new_EventQueue_def)

lemma onError_fields:
  "queue_timers (onError m tech q) = queue_timers q"
  "pendingEventTimers (onError m tech q) = pendingEventTimers q"
  "pendingEvents (onError m tech q) = pendingEvents q"
  "queue_next_handle (onError m tech q) = queue_next_handle q"
  by (simp_all add: onError_def)

lemma queue_inv_onError: "queue_inv q \<Longrightarrow> queue_inv (onError m tech q)"
  by (simp only: queue_inv_def onError_fields)

lemma now_fields:
  "queue_timers (q\<lparr>now := t\<rparr>) = queue_timers q"
  "pendingEventTimers (q\<lparr>now := t\<rparr>) = pendingEventTimers q"
  "pendingEvents (q\<lparr>now := t\<rparr>) = pendingEvents q"
  "queue_next_handle (q\<lparr>now := t\<rparr>) = queue_next_handle q"
  by simp_all

lemma queue_inv_now: "queue_inv q \<Longrightarrow> queue_inv (q\<lparr>now := t\<rparr>)"
  by (simp only: queue_inv_def now_fields)

lemma queue_inv_process:
  assumes "queue_inv q"
  shows "queue_inv (process parse handler ev q)"
proof -
  obtain r q' where c: "call_handler handler ev q = (r, q')"
    by (cases "call_handler handler ev q") auto
  have i: "queue_inv q'"
    using queue_inv_call_handler [OF assms, of handler ev] c by simp
  show ?thesis
    unfolding process_def c
    by (cases r)
       (auto simp: Let_def i queue_inv_onError queue_inv_queueForReorder split: option.splits)
qed

lemma queue_inv_expire_any:
  assumes "queue_inv q"
  shows "queue_inv (expire hsort handler h q)"
proof (cases "find (\<lambda>(h', d, e). h' = h) (queue_timers q)")
  case None
  then show ?thesis using assms by (simp add: expire_def)
next
  case (Some x)
  obtain h' d e where x: "x = (h', d, e)" by (cases x) auto
  have "(h, d, e) \<in> set (queue_timers q)"
    using Some x by (auto simp: find_Some_iff in_set_conv_nth)
  then show ?thesis by (rule queue_inv_expire(1) [OF assms])
qed

lemma queue_inv_clear:
  assumes "queue_inv q"
  shows "queue_inv (clear q)" and "queue_timers (clear q) = []"
proof -
  have "h \<in> snd ` set (pendingEventTimers q)" if "(h, d, e) \<in> set (queue_timers q)" for h d e
    using inv_registered [OF assms that] by (force dest: map_of_SomeD)
  then show t: "queue_timers (clear q) = []"
    by (auto simp: clear_def filter_empty_conv)
  show "queue_inv (clear q)"
    unfolding queue_inv_def t by (simp add: clear_def)
qed

section \<open>Properties of the task tree\<close>

subsection \<open>What a call does to the tree\<close>

lemma queueRender_False:
  "queueRender qs snap False cb t = (Returned (), queueRender_later snap cb t)"
  by (simp add: queueRender_def queueRender_later_def Let_def)

text \<open>What a call does to the tree: nothing, a queued render, or the start of an exit animation.\<close>

lemma apply_mutation_cases:
  "(\<not> requests_render parse lc qs m t \<and> snd (apply_mutation parse lc qs m t) = t)
   \<or> (requests_render parse lc qs m t
       \<and> (\<exists>st ta sa cb. snd (apply_mutation parse lc qs m t)
             = queueRender_later (snapshot lc st) cb
                 (t\<lparr>store := st, pendingTaskAddIds := ta, pendingSectionAddIds := sa\<rparr>)))
   \<or> (requests_render parse lc qs m t
       \<and> (\<exists>st hc. snd (apply_mutation parse lc qs m t)
             = t\<lparr>store := st, animationsInProgress := animationsInProgress t + 1,
                 hook_calls := hook_calls t @ [hc]\<rparr>))"
proof (cases m)
  case (Organize data)
  have "snd (apply_mutation parse lc qs m t)
          = queueRender_later (snapshot lc (organize data (store t))) None
              (t\<lparr>store := organize data (store t), pendingTaskAddIds := pendingTaskAddIds t,
                 pendingSectionAddIds := pendingSectionAddIds t\<rparr>)"
    by (simp add: Organize apply_mutation_def tree_organize_def Let_def queueRender_False)
  moreover have "requests_render parse lc qs m t"
    by (simp add: Organize requests_render_def apply_mutation_def tree_organize_def Let_def
        queueRender_False)
  ultimately show ?thesis by blast
next
  case (AddTask task)
  show ?thesis
  proof (cases "Map_has task_id (tasks (store t)) (task_id task)")
    case True
    then show ?thesis
      by (simp add: AddTask requests_render_def apply_mutation_def tree_addTask_def addTask_def)
  next
    case False
    have "snd (apply_mutation parse lc qs m t)
          = queueRender_later (snapshot lc (snd (addTask task (store t))))
              (Some (AfterTaskAdd (task_id task)))
              (t\<lparr>store := snd (addTask task (store t)),
                 pendingTaskAddIds := Set_add (task_id task) (pendingTaskAddIds t),
                 pendingSectionAddIds := pendingSectionAddIds t\<rparr>)"
      using False
      by (simp add: AddTask apply_mutation_def tree_addTask_def addTask_def Let_def
          queueRender_False)
    moreover have "requests_render parse lc qs m t"
      using False
      by (simp add: AddTask requests_render_def apply_mutation_def tree_addTask_def addTask_def
          Let_def queueRender_False)
    ultimately show ?thesis by blast
  qed
next
  case (UpdateTask task)
  show ?thesis
  proof (cases "Map_get task_id (tasks (store t)) (task_id task)")
    case None
    then show ?thesis
      by (simp add: UpdateTask requests_render_def apply_mutation_def tree_updateTask_def
          updateTask_def)
  next
    case (Some existing)
    have "snd (apply_mutation parse lc qs m t)
          = queueRender_later (snapshot lc (snd (updateTask parse task (store t)))) None
              (t\<lparr>store := snd (updateTask parse task (store t)),
                 pendingTaskAddIds := pendingTaskAddIds t,
                 pendingSectionAddIds := pendingSectionAddIds t\<rparr>)"
      using Some
      by (simp add: UpdateTask apply_mutation_def tree_updateTask_def updateTask_def Let_def
          queueRender_False)
    moreover have "requests_render parse lc qs m t"
      using Some
      by (simp add: UpdateTask requests_render_def apply_mutation_def tree_updateTask_def
          updateTask_def Let_def queueRender_False)
    ultimately show ?thesis by blast
  qed
next
  case (RemoveTask taskId)
  show ?thesis
  proof (cases "findTaskElement qs taskId t")
    case (Threw err)
    then show ?thesis
      by (simp add: RemoveTask requests_render_def apply_mutation_def tree_removeTask_def)
  next
    case (Returned element)
    have r: "requests_render parse lc qs m t"
      using Returned
      by (simp add: RemoveTask requests_render_def apply_mutation_def tree_removeTask_def
          Let_def queueRender_False split: option.splits)
    show ?thesis
    proof (cases "element \<noteq> None \<and> has_onTaskRemove (hooks t)")
      case True
      then have "snd (apply_mutation parse lc qs m t)
          = t\<lparr>store := removeTask taskId (store t),
               animationsInProgress := animationsInProgress t + 1,
               hook_calls := hook_calls t @ [OnTaskRemove (the element)]\<rparr>"
        using Returned
        by (auto simp: RemoveTask apply_mutation_def tree_removeTask_def Let_def)
      then show ?thesis using r by blast
    next
      case False
      then have "snd (apply_mutation parse lc qs m t)
          = queueRender_later (snapshot lc (removeTask taskId (store t))) None
              (t\<lparr>store := removeTask taskId (store t),
                 pendingTaskAddIds := pendingTaskAddIds t,
                 pendingSectionAddIds := pendingSectionAddIds t\<rparr>)"
        using Returned
        by (auto simp: RemoveTask apply_mutation_def tree_removeTask_def Let_def
            queueRender_False split: option.splits)
      then show ?thesis using r by blast
    qed
  qed
next
  case (AddSection sec)
  have "snd (apply_mutation parse lc qs m t)
          = queueRender_later (snapshot lc (snd (addSection sec (store t))))
              (Some (AfterSectionAdd (sec_id sec)))
              (t\<lparr>store := snd (addSection sec (store t)),
                 pendingTaskAddIds := pendingTaskAddIds t,
                 pendingSectionAddIds := Set_add (sec_id sec) (pendingSectionAddIds t)\<rparr>)"
    by (simp add: AddSection apply_mutation_def tree_addSection_def addSection_def Let_def
        queueRender_False)
  moreover have "requests_render parse lc qs m t"
    by (simp add: AddSection requests_render_def apply_mutation_def tree_addSection_def
        addSection_def Let_def queueRender_False)
  ultimately show ?thesis by blast
next
  case (UpdateSection sec)
  show ?thesis
  proof (cases "Map_get sec_id (sections (store t)) (sec_id sec)")
    case None
    then show ?thesis
      by (simp add: UpdateSection requests_render_def apply_mutation_def tree_updateSection_def
          updateSection_def)
  next
    case (Some existing)
    show ?thesis
    proof (cases "isStale parse (sec_updated_at sec) (sec_updated_at existing)")
      case True
      then show ?thesis using Some
        by (simp add: UpdateSection requests_render_def apply_mutation_def
            tree_updateSection_def updateSection_def)
    next
      case False
      have "snd (apply_mutation parse lc qs m t)
          = queueRender_later (snapshot lc (snd (updateSection parse sec (store t)))) None
              (t\<lparr>store := snd (updateSection parse sec (store t)),
                 pendingTaskAddIds := pendingTaskAddIds t,
                 pendingSectionAddIds := pendingSectionAddIds t\<rparr>)"
        using Some False
        by (simp add: UpdateSection apply_mutation_def tree_updateSection_def updateSection_def
            Let_def queueRender_False)
      moreover have "requests_render parse lc qs m t"
        using Some False
        by (simp add: UpdateSection requests_render_def apply_mutation_def
            tree_updateSection_def updateSection_def Let_def queueRender_False)
      ultimately show ?thesis by blast
    qed
  qed
next
  case (RemoveSection sectionId)
  show ?thesis
  proof (cases "findSectionElement qs sectionId t")
    case (Threw err)
    then show ?thesis
      by (simp add: RemoveSection requests_render_def apply_mutation_def tree_removeSection_def)
  next
    case (Returned element)
    have r: "requests_render parse lc qs m t"
      using Returned
      by (simp add: RemoveSection requests_render_def apply_mutation_def tree_removeSection_def
          Let_def queueRender_False split: option.splits)
    show ?thesis
    proof (cases "element \<noteq> None \<and> has_onSectionRemove (hooks t)")
      case True
      then have "snd (apply_mutation parse lc qs m t)
          = t\<lparr>store := removeSection sectionId (store t),
               animationsInProgress := animationsInProgress t + 1,
               hook_calls := hook_calls t @ [OnSectionRemove (the element)]\<rparr>"
        using Returned
        by (auto simp: RemoveSection apply_mutation_def tree_removeSection_def Let_def)
      then show ?thesis using r by blast
    next
      case False
      then have "snd (apply_mutation parse lc qs m t)
          = queueRender_later (snapshot lc (removeSection sectionId (store t))) None
              (t\<lparr>store := removeSection sectionId (store t),
                 pendingTaskAddIds := pendingTaskAddIds t,
                 pendingSectionAddIds := pendingSectionAddIds t\<rparr>)"
        using Returned
        by (auto simp: RemoveSection apply_mutation_def tree_removeSection_def Let_def
            queueRender_False split: option.splits)
      then show ?thesis using r by blast
    qed
  qed
qed

lemma fst_apply_mutation_clock:
  "fst (apply_mutation parse lc qs m (t\<lparr>clock := c\<rparr>)) = fst (apply_mutation parse lc qs m t)"
  by (cases m)
     (simp_all add: apply_mutation_def tree_organize_def tree_addTask_def tree_updateTask_def
        tree_removeTask_def tree_addSection_def tree_updateSection_def tree_removeSection_def
        findTaskElement_def findSectionElement_def queueRender_False Let_def
        split: prod.splits outcome.splits option.splits)

lemma requests_render_clock:
  "requests_render parse lc qs m (t\<lparr>clock := c\<rparr>) = requests_render parse lc qs m t"
  by (simp add: requests_render_def fst_apply_mutation_clock split: mutation.splits)

lemma debounce_timer_mono: "debounce_timer T t \<Longrightarrow> T \<subseteq> T' \<Longrightarrow> debounce_timer T' t"
  unfolding debounce_timer_def by blast

lemma in_progress_mono:
  assumes "in_progress lc t0 T req t" and "T \<subseteq> T'"
  shows "in_progress lc t0 T' req t"
proof (cases req)
  case False
  then show ?thesis using assms(1) by (simp add: in_progress_def)
next
  case True
  then consider "debouncing lc t0 T t" | "animating t0 T t"
    using assms(1) by (auto simp: in_progress_def)
  then show ?thesis
  proof cases
    case 1
    then have "debouncing lc t0 T' t"
      using debounce_timer_mono [OF _ assms(2), of t] by (simp add: debouncing_def)
    then show ?thesis using True by (simp add: in_progress_def)
  next
    case 2
    then have "animating t0 T' t"
      using debounce_timer_mono [OF _ assms(2), of t] unfolding animating_def by blast
    then show ?thesis using True by (simp add: in_progress_def)
  qed
qed

lemma debounce_timer_clock:
  assumes "debounce_timer T t" and "before_expiry at t"
  shows "debounce_timer T (t\<lparr>clock := at\<rparr>)"
proof -
  obtain h due where t: "renderTimer t = Some h" "tree_timers t = [(h, due, DebounceCallback)]"
    "due - renderDelayMs \<in> T"
    using assms(1) unfolding debounce_timer_def by blast
  have "at < due" using assms(2) t(2) by (simp add: before_expiry_def)
  then show ?thesis unfolding debounce_timer_def using t by simp
qed

lemma in_progress_clock:
  assumes "in_progress lc t0 T req t" and "before_expiry at t"
  shows "in_progress lc t0 T req (t\<lparr>clock := at\<rparr>)"
proof (cases req)
  case False
  then have "t = t0\<lparr>clock := clock t\<rparr>" using assms(1) by (simp add: in_progress_def untouched_def)
  then have "t\<lparr>clock := at\<rparr> = t0\<lparr>clock := clock t\<rparr>\<lparr>clock := at\<rparr>" by simp
  then have "t\<lparr>clock := at\<rparr> = t0\<lparr>clock := at\<rparr>" by simp
  then show ?thesis using False by (simp add: in_progress_def untouched_def)
next
  case True
  note d = debounce_timer_clock [OF _ assms(2), of T]
  from True consider "debouncing lc t0 T t" | "animating t0 T t"
    using assms(1) by (auto simp: in_progress_def)
  then show ?thesis
  proof cases
    case 1
    then have "debouncing lc t0 T (t\<lparr>clock := at\<rparr>)"
      using d by (simp add: debouncing_def)
    then show ?thesis using True by (simp add: in_progress_def)
  next
    case 2
    then have "animating t0 T (t\<lparr>clock := at\<rparr>)"
      using d unfolding animating_def by auto
    then show ?thesis using True by (simp add: in_progress_def)
  qed
qed

subsection \<open>The steps of a burst\<close>

lemma renderDelayMs_pos: "0 < renderDelayMs"
  by (simp add: renderDelayMs_def)

lemma queueRender_later_in_progress:
  assumes i: "idle t0" and p: "in_progress lc t0 T req t" and c: "clock t \<in> T"
  shows "in_progress lc t0 T True
           (queueRender_later (snapshot lc st) cb
              (t\<lparr>store := st, pendingTaskAddIds := ta, pendingSectionAddIds := sa\<rparr>))"
proof -
  let ?u = "t\<lparr>store := st, pendingTaskAddIds := ta, pendingSectionAddIds := sa\<rparr>"
  let ?r = "queueRender_later (snapshot lc st) cb ?u"
  consider (u) "\<not> req" "untouched t0 t" | (d) "debouncing lc t0 T t" | (a) "animating t0 T t"
    using p by (auto simp: in_progress_def split: if_splits)
  then have "debouncing lc t0 T ?r \<or> animating t0 T ?r"
  proof cases
    case u
    then have e: "t = t0\<lparr>clock := clock t\<rparr>" by (simp add: untouched_def)
    have f: "renderTimer t = None" "tree_timers t = []" "animationsInProgress t = 0"
      "\<not> isRendering t" "rendered t = rendered t0"
      using i by (subst e, simp add: idle_def)+
    have "debouncing lc t0 T ?r"
      using f c renderDelayMs_pos
      by (simp add: debouncing_def debounce_timer_def queueRender_later_def Let_def setTimeout_def)
    then show ?thesis ..
  next
    case d
    then have "debouncing lc t0 T ?r"
      by (auto simp: debouncing_def debounce_timer_def queueRender_later_def Let_def)
    then show ?thesis ..
  next
    case a
    then have "animating t0 T ?r"
      by (auto simp: animating_def debounce_timer_def queueRender_later_def Let_def)
    then show ?thesis ..
  qed
  then show ?thesis by (simp add: in_progress_def)
qed

lemma animation_start_in_progress:
  assumes i: "idle t0" and p: "in_progress lc t0 T req t"
  shows "in_progress lc t0 T True
           (t\<lparr>store := st, animationsInProgress := animationsInProgress t + 1,
              hook_calls := hook_calls t @ [hc]\<rparr>)"
proof -
  let ?r = "t\<lparr>store := st, animationsInProgress := animationsInProgress t + 1,
              hook_calls := hook_calls t @ [hc]\<rparr>"
  consider (u) "\<not> req" "untouched t0 t" | (d) "debouncing lc t0 T t" | (a) "animating t0 T t"
    using p by (auto simp: in_progress_def split: if_splits)
  then have "animating t0 T ?r"
  proof cases
    case u
    then have e: "t = t0\<lparr>clock := clock t\<rparr>" by (simp add: untouched_def)
    have f: "renderTimer t = None" "tree_timers t = []" "animationsInProgress t = 0"
      "\<not> isRendering t" "rendered t = rendered t0"
      using i by (subst e, simp add: idle_def)+
    show ?thesis using f by (simp add: animating_def)
  next
    case d
    then show ?thesis by (auto simp: debouncing_def animating_def debounce_timer_def)
  next
    case a
    then show ?thesis by (auto simp: animating_def debounce_timer_def)
  qed
  then show ?thesis by (simp add: in_progress_def)
qed

lemma issue_in_progress:
  assumes i: "idle t0" and p: "in_progress lc t0 T req t" and b: "before_expiry at t"
  shows "in_progress lc t0 (insert at T) (req \<or> requests_render parse lc qs m t)
           (issue parse lc qs (at, m) t)"
proof -
  let ?t = "t\<lparr>clock := at\<rparr>"
  have m: "max (clock t) at = at" using b by (simp add: before_expiry_def)
  have e: "issue parse lc qs (at, m) t = snd (apply_mutation parse lc qs m ?t)"
    by (simp add: issue_def m)
  have p': "in_progress lc t0 (insert at T) req ?t"
    using in_progress_mono [OF in_progress_clock [OF p b]] by blast
  have c: "clock ?t \<in> insert at T" by simp
  have r: "requests_render parse lc qs m ?t = requests_render parse lc qs m t"
    by (rule requests_render_clock)
  from apply_mutation_cases [of parse lc qs m ?t]
  consider (same) "\<not> requests_render parse lc qs m t" "snd (apply_mutation parse lc qs m ?t) = ?t"
    | (queued) st ta sa cb where "requests_render parse lc qs m t"
        "snd (apply_mutation parse lc qs m ?t)
           = queueRender_later (snapshot lc st) cb
               (?t\<lparr>store := st, pendingTaskAddIds := ta, pendingSectionAddIds := sa\<rparr>)"
    | (animated) st hc where "requests_render parse lc qs m t"
        "snd (apply_mutation parse lc qs m ?t)
           = ?t\<lparr>store := st, animationsInProgress := animationsInProgress ?t + 1,
                hook_calls := hook_calls ?t @ [hc]\<rparr>"
    unfolding r by blast
  then show ?thesis
  proof cases
    case same
    then show ?thesis using p' e by simp
  next
    case queued
    show ?thesis
      unfolding e queued(2) using queued(1) queueRender_later_in_progress [OF i p' c] by simp
  next
    case animated
    show ?thesis
      unfolding e animated(2) using animated(1) animation_start_in_progress [OF i p'] by simp
  qed
qed

lemma done_in_progress:
  assumes i: "idle t0" and p: "in_progress lc t0 T req t" and b: "before_expiry at t"
    and a: "animationsInProgress t > 0"
  shows "in_progress lc t0 (insert at T) True (snd (animation_done lc qs (t\<lparr>clock := max (clock t) at\<rparr>)))"
    and "req"
    and "animationsInProgress (snd (animation_done lc qs (t\<lparr>clock := max (clock t) at\<rparr>)))
           = animationsInProgress t - 1"
    and "store (snd (animation_done lc qs (t\<lparr>clock := max (clock t) at\<rparr>))) = store t"
proof -
  let ?t = "t\<lparr>clock := at\<rparr>"
  let ?r = "snd (animation_done lc qs (t\<lparr>clock := max (clock t) at\<rparr>))"
  have m: "max (clock t) at = at" using b by (simp add: before_expiry_def)
  have n0: "\<not> untouched t0 t"
  proof
    assume "untouched t0 t"
    then have e: "t = t0\<lparr>clock := clock t\<rparr>" by (simp add: untouched_def)
    have "animationsInProgress t = 0" using i by (subst e, simp add: idle_def)
    then show False using a by simp
  qed
  then show req: "req" using p by (auto simp: in_progress_def split: if_splits)
  have an: "animating t0 T t" using p a req by (auto simp: in_progress_def debouncing_def)
  have an': "animating t0 (insert at T) ?t"
    using in_progress_mono [OF in_progress_clock [OF p b], of "insert at T"] req a
    by (auto simp: in_progress_def debouncing_def)
  show "animationsInProgress ?r = animationsInProgress t - 1"
    by (simp add: animation_done_def queueRender_False queueRender_later_def Let_def m
        setTimeout_def)
  show "store ?r = store t"
    by (simp add: animation_done_def queueRender_False queueRender_later_def Let_def m
        setTimeout_def)
  have "debouncing lc t0 (insert at T) ?r \<or> animating t0 (insert at T) ?r"
  proof (cases "animationsInProgress t - 1 > 0")
    case True
    then have "animating t0 (insert at T) ?r"
      using an'
      by (auto simp: animating_def debounce_timer_def animation_done_def queueRender_False
          queueRender_later_def Let_def m)
    then show ?thesis ..
  next
    case False
    then have z: "animationsInProgress t - 1 = 0" using a by simp
    have "debouncing lc t0 (insert at T) ?r"
      using an' z renderDelayMs_pos
      by (auto simp: animating_def debouncing_def debounce_timer_def animation_done_def
          queueRender_False queueRender_later_def Let_def m setTimeout_def)
    then show ?thesis ..
  qed
  then show "in_progress lc t0 (insert at T) True ?r" by (simp add: in_progress_def)
qed

lemma expire_in_progress:
  assumes i: "idle t0" and p: "in_progress lc t0 T req t"
    and h: "h \<in> set (map fst (tree_timers t))" and a: "animationsInProgress t > 0"
  shows "in_progress lc t0 T True (snd (timer_expires qs h t))" and "req"
    and "animationsInProgress (snd (timer_expires qs h t)) = animationsInProgress t"
    and "store (snd (timer_expires qs h t)) = store t"
proof -
  let ?r = "snd (timer_expires qs h t)"
  have n0: "\<not> untouched t0 t"
  proof
    assume "untouched t0 t"
    then have e: "t = t0\<lparr>clock := clock t\<rparr>" by (simp add: untouched_def)
    have "animationsInProgress t = 0" using i by (subst e, simp add: idle_def)
    then show False using a by simp
  qed
  then show req: "req" using p by (auto simp: in_progress_def split: if_splits)
  have an: "animating t0 T t" using p a req by (auto simp: in_progress_def debouncing_def)
  then obtain due where t: "renderTimer t = Some h" "tree_timers t = [(h, due, DebounceCallback)]"
    using h by (auto simp: animating_def debounce_timer_def)
  have e: "?r = t\<lparr>tree_timers := [], clock := max (clock t) due, renderTimer := None\<rparr>"
    using t a
    by (simp add: timer_expires_def flushRender_def Let_def split: option.splits)
  show "animationsInProgress ?r = animationsInProgress t" by (simp add: e)
  show "store ?r = store t" by (simp add: e)
  have "animating t0 T ?r" using an by (simp add: e animating_def)
  then show "in_progress lc t0 T True ?r" by (simp add: in_progress_def)
qed

lemma step_in_progress:
  assumes i: "idle t0" and p: "in_progress lc t0 T req t" and b: "in_burst s t"
  shows "in_progress lc t0 (T \<union> set (step_times [s])) (req \<or> requested parse lc qs [s] t)
           (run_step parse lc qs s t)"
proof (cases s)
  case (Call at m)
  then show ?thesis using issue_in_progress [OF i p, of at parse qs m] b by simp
next
  case (Done at)
  then show ?thesis using done_in_progress(1) [OF i p, of at qs] done_in_progress(2) [OF i p, of at] b by simp
next
  case (Expire h)
  then show ?thesis using expire_in_progress(1) [OF i p, of h qs] expire_in_progress(2) [OF i p, of h] b by simp
qed

lemma requested_append_one:
  "requested parse lc qs (s # ss) t
     = (requested parse lc qs [s] t \<or> requested parse lc qs ss (run_step parse lc qs s t))"
  by (cases s) simp_all

lemma step_times_Cons: "set (step_times (s # ss)) = set (step_times [s]) \<union> set (step_times ss)"
  by (cases s) auto

lemma burst_in_progress:
  assumes i: "idle t0"
  shows "in_progress lc t0 T req t \<Longrightarrow> burst parse lc qs ss t \<Longrightarrow>
         in_progress lc t0 (T \<union> set (step_times ss)) (req \<or> requested parse lc qs ss t)
           (fold (run_step parse lc qs) ss t)"
proof (induction ss arbitrary: T req t)
  case Nil
  then show ?case by simp
next
  case (Cons s ss)
  have b: "in_burst s t" "burst parse lc qs ss (run_step parse lc qs s t)"
    using Cons.prems(2) by simp_all
  note st = step_in_progress [OF i Cons.prems(1) b(1), of parse qs]
  note ih = Cons.IH [OF st b(2)]
  have T: "T \<union> set (step_times [s]) \<union> set (step_times ss) = T \<union> set (step_times (s # ss))"
    using step_times_Cons [of s ss] by blast
  have r: "((req \<or> requested parse lc qs [s] t) \<or> requested parse lc qs ss (run_step parse lc qs s t))
           = (req \<or> requested parse lc qs (s # ss) t)"
    using requested_append_one [of parse lc qs s ss t] by blast
  show ?case using ih unfolding T r by simp
qed

subsection \<open>The render when the timer expires\<close>

lemma run_after_render_fields:
  "rendered (snd (run_after_render qs cb t)) = rendered t"
  "pendingSnapshot (snd (run_after_render qs cb t)) = pendingSnapshot t"
  "tree_timers (snd (run_after_render qs cb t)) = tree_timers t"
  "renderTimer (snd (run_after_render qs cb t)) = renderTimer t"
  "store (snd (run_after_render qs cb t)) = store t"
  "animationsInProgress (snd (run_after_render qs cb t)) = animationsInProgress t"
  "isRendering (snd (run_after_render qs cb t)) = isRendering t"
  by (simp_all add: run_after_render_def Let_def
      split: after_render.splits outcome.splits option.splits)

lemma forEach_callback_all:
  "rendered (snd (forEach_callback qs cbs t)) = rendered t
   \<and> pendingSnapshot (snd (forEach_callback qs cbs t)) = pendingSnapshot t
   \<and> tree_timers (snd (forEach_callback qs cbs t)) = tree_timers t
   \<and> renderTimer (snd (forEach_callback qs cbs t)) = renderTimer t
   \<and> store (snd (forEach_callback qs cbs t)) = store t
   \<and> animationsInProgress (snd (forEach_callback qs cbs t)) = animationsInProgress t
   \<and> isRendering (snd (forEach_callback qs cbs t)) = isRendering t"
proof (induction cbs arbitrary: t)
  case Nil
  show ?case by simp
next
  case (Cons cb cbs)
  show ?case
  proof (cases "run_after_render qs cb t")
    case (Pair r t')
    note f = run_after_render_fields [of qs cb t, unfolded Pair snd_conv]
    show ?thesis
    proof (cases r)
      case (Returned u)
      have "forEach_callback qs (cb # cbs) t = forEach_callback qs cbs t'"
        by (simp add: Pair Returned)
      then show ?thesis using Cons.IH [of t'] f by simp
    next
      case (Threw err)
      have "forEach_callback qs (cb # cbs) t = (Threw err, t')"
        by (simp add: Pair Threw)
      then show ?thesis using f by simp
    qed
  qed
qed

lemma forEach_callback_fields:
  "rendered (snd (forEach_callback qs cbs t)) = rendered t"
  "pendingSnapshot (snd (forEach_callback qs cbs t)) = pendingSnapshot t"
  "tree_timers (snd (forEach_callback qs cbs t)) = tree_timers t"
  "renderTimer (snd (forEach_callback qs cbs t)) = renderTimer t"
  "store (snd (forEach_callback qs cbs t)) = store t"
  "animationsInProgress (snd (forEach_callback qs cbs t)) = animationsInProgress t"
  "isRendering (snd (forEach_callback qs cbs t)) = isRendering t"
  using forEach_callback_all [of qs cbs t] by simp_all

lemma flushRender_renders:
  assumes "pendingSnapshot t = Some snap" and "animationsInProgress t = 0"
  shows "rendered (snd (flushRender qs t)) = rendered t @ [snap]"
    and "pendingSnapshot (snd (flushRender qs t)) = None"
    and "tree_timers (snd (flushRender qs t)) = tree_timers t"
    and "store (snd (flushRender qs t)) = store t"
    and "animationsInProgress (snd (flushRender qs t)) = 0"
    and "fst (flushRender qs t) = Returned () \<Longrightarrow> \<not> isRendering (snd (flushRender qs t))"
proof -
  let ?t1 = "(render snap
                (t\<lparr>isRendering := True,
                   view_pendingTaskAddIds := pendingTaskAddIds t,
                   view_pendingSectionAddIds := pendingSectionAddIds t\<rparr>))
             \<lparr>pendingSnapshot := None\<rparr>"
  let ?c = "forEach_callback qs (afterRenderCallbacks ?t1) (?t1\<lparr>afterRenderCallbacks := []\<rparr>)"
  obtain r t2 where c: "?c = (r, t2)" by (cases ?c) auto
  note f = forEach_callback_fields [of qs "afterRenderCallbacks ?t1" "?t1\<lparr>afterRenderCallbacks := []\<rparr>",
      unfolded c snd_conv]
  have e: "flushRender qs t
             = (case r of
                  Threw err \<Rightarrow> (Threw err, t2)
                | Returned u \<Rightarrow>
                    (Returned (),
                     if has_onTreeChange (hooks t2)
                     then t2\<lparr>isRendering := False, hook_calls := hook_calls t2 @ [OnTreeChange]\<rparr>
                     else t2\<lparr>isRendering := False\<rparr>))"
    using assms c f(2) by (simp add: flushRender_def Let_def split: outcome.splits)
  have g: "rendered t2 = rendered t @ [snap]" "pendingSnapshot t2 = None"
    "tree_timers t2 = tree_timers t" "store t2 = store t" "animationsInProgress t2 = 0"
    using f assms(2) by (simp_all add: render_def)
  show "rendered (snd (flushRender qs t)) = rendered t @ [snap]"
    using g by (simp add: e split: outcome.splits)
  show "pendingSnapshot (snd (flushRender qs t)) = None"
    using g by (simp add: e split: outcome.splits)
  show "tree_timers (snd (flushRender qs t)) = tree_timers t"
    using g by (simp add: e split: outcome.splits)
  show "store (snd (flushRender qs t)) = store t"
    using g by (simp add: e split: outcome.splits)
  show "animationsInProgress (snd (flushRender qs t)) = 0"
    using g by (simp add: e split: outcome.splits)
  show "\<not> isRendering (snd (flushRender qs t))" if "fst (flushRender qs t) = Returned ()"
    using that by (simp add: e split: outcome.splits)
qed

lemma timer_expires_debouncing:
  assumes d: "debouncing lc t0 T t" and h: "renderTimer t = Some h"
  shows "rendered (snd (timer_expires qs h t)) = rendered t0 @ [snapshot lc (store t)]"
    and "pendingSnapshot (snd (timer_expires qs h t)) = None"
    and "tree_timers (snd (timer_expires qs h t)) = []"
    and "store (snd (timer_expires qs h t)) = store t"
    and "fst (timer_expires qs h t) = Returned () \<Longrightarrow> idle (snd (timer_expires qs h t))"
proof -
  obtain due where t: "tree_timers t = [(h, due, DebounceCallback)]"
    using d h by (auto simp: debouncing_def debounce_timer_def)
  define t1 where "t1 = t\<lparr>tree_timers := [], clock := max (clock t) due\<rparr>"
  have e: "timer_expires qs h t
             = (case flushRender qs t1 of
                  (Threw err, t2) \<Rightarrow> (Threw err, t2)
                | (Returned u, t2) \<Rightarrow> (Returned (), t2\<lparr>renderTimer := None\<rparr>))"
    using t by (simp add: timer_expires_def Let_def t1_def)
  have p: "pendingSnapshot t1 = Some (snapshot lc (store t))" "animationsInProgress t1 = 0"
    using d by (simp_all add: debouncing_def t1_def)
  have o: "rendered t1 = rendered t0" "tree_timers t1 = []" "store t1 = store t"
    using d by (simp_all add: debouncing_def t1_def)
  note f = flushRender_renders [OF p, of qs]
  obtain r t2 where c: "flushRender qs t1 = (r, t2)" by (cases "flushRender qs t1") auto
  note g = f [unfolded c fst_conv snd_conv]
  show "rendered (snd (timer_expires qs h t)) = rendered t0 @ [snapshot lc (store t)]"
    using g o by (cases r) (simp_all add: e c)
  show "pendingSnapshot (snd (timer_expires qs h t)) = None"
    using g o by (cases r) (simp_all add: e c)
  show "tree_timers (snd (timer_expires qs h t)) = []"
    using g o by (cases r) (simp_all add: e c)
  show "store (snd (timer_expires qs h t)) = store t"
    using g o by (cases r) (simp_all add: e c)
  show "idle (snd (timer_expires qs h t))" if "fst (timer_expires qs h t) = Returned ()"
    using that g o by (cases r) (simp_all add: e c idle_def)
qed

lemma in_progress_before_expiry:
  assumes i: "idle t0" and p: "in_progress lc t0 T req t"
  shows "before_expiry (clock t) t"
proof -
  consider (u) "untouched t0 t" | (d) "debounce_timer T t" | (n) "tree_timers t = []"
    using p by (auto simp: in_progress_def debouncing_def animating_def split: if_splits)
  then show ?thesis
  proof cases
    case u
    then have e: "t = t0\<lparr>clock := clock t\<rparr>" by (simp add: untouched_def)
    have "tree_timers t = []" using i by (subst e, simp add: idle_def)
    then show ?thesis by (simp add: before_expiry_def)
  next
    case d
    then show ?thesis by (auto simp: debounce_timer_def before_expiry_def)
  next
    case n
    then show ?thesis by (simp add: before_expiry_def)
  qed
qed

lemma animation_done_clock:
  "clock (snd (animation_done lc qs t)) = clock t"
  by (simp add: animation_done_def queueRender_False queueRender_later_def Let_def setTimeout_def)

lemma outstanding_dones:
  assumes i: "idle t0"
  shows "in_progress lc t0 T req t \<Longrightarrow> animationsInProgress t = int k \<Longrightarrow>
         burst parse lc qs (replicate k (Done (clock t))) t
         \<and> animationsInProgress (fold (run_step parse lc qs) (replicate k (Done (clock t))) t) = 0
         \<and> store (fold (run_step parse lc qs) (replicate k (Done (clock t))) t) = store t"
proof (induction k arbitrary: T req t)
  case 0
  then show ?case by simp
next
  case (Suc k)
  let ?c = "clock t"
  let ?t1 = "run_step parse lc qs (Done ?c) t"
  have a: "animationsInProgress t > 0" using Suc.prems(2) by simp
  have b: "before_expiry ?c t" by (rule in_progress_before_expiry [OF i Suc.prems(1)])
  have p1: "in_progress lc t0 (insert ?c T) True ?t1"
    using done_in_progress(1) [OF i Suc.prems(1) b a, of qs] by simp
  have a1: "animationsInProgress ?t1 = int k"
    using done_in_progress(3) [OF i Suc.prems(1) b a, of qs] Suc.prems(2) by simp
  have c1: "clock ?t1 = ?c" by (simp add: animation_done_clock)
  have s1: "store ?t1 = store t"
    using done_in_progress(4) [OF i Suc.prems(1) b a, of qs] by simp
  note ih = Suc.IH [OF p1 a1, unfolded c1 s1]
  show ?case using ih a b by simp
qed

lemma skipped_updateSection:
  "fst (updateSection parse sec (store t)) = Returned True \<Longrightarrow>
   apply_mutation parse lc qs (UpdateSection sec) t = (Returned (), t)"
  by (auto simp: apply_mutation_def tree_updateSection_def updateSection_def Let_def
      queueRender_False split: option.splits if_splits)

subsection \<open>A live timer is not moved\<close>

lemma queueRender_later_timers:
  "tree_timers (queueRender_later snap cb t) = tree_timers t
   \<or> (renderTimer t = None
       \<and> tree_timers (queueRender_later snap cb t)
           = tree_timers t @ [(tree_next_handle t, clock t + renderDelayMs, DebounceCallback)])"
  by (simp add: queueRender_later_def Let_def setTimeout_def)

lemma issue_timers:
  "tree_timers (issue parse lc qs (at, m) t) = tree_timers t
   \<or> (renderTimer t = None
       \<and> tree_timers (issue parse lc qs (at, m) t)
           = tree_timers t
             @ [(tree_next_handle t, max (clock t) at + renderDelayMs, DebounceCallback)])"
proof -
  let ?t = "t\<lparr>clock := max (clock t) at\<rparr>"
  have e: "issue parse lc qs (at, m) t = snd (apply_mutation parse lc qs m ?t)"
    by (simp add: issue_def)
  from apply_mutation_cases [of parse lc qs m ?t]
  consider (same) "snd (apply_mutation parse lc qs m ?t) = ?t"
    | (queued) st ta sa cb where
        "snd (apply_mutation parse lc qs m ?t)
           = queueRender_later (snapshot lc st) cb
               (?t\<lparr>store := st, pendingTaskAddIds := ta, pendingSectionAddIds := sa\<rparr>)"
    | (animated) st hc where
        "snd (apply_mutation parse lc qs m ?t)
           = ?t\<lparr>store := st, animationsInProgress := animationsInProgress ?t + 1,
                hook_calls := hook_calls ?t @ [hc]\<rparr>"
    by blast
  then show ?thesis
  proof cases
    case same
    then show ?thesis by (simp add: e)
  next
    case queued
    show ?thesis
      unfolding e queued
      using queueRender_later_timers [of "snapshot lc st" cb
          "?t\<lparr>store := st, pendingTaskAddIds := ta, pendingSectionAddIds := sa\<rparr>"]
      by simp
  next
    case animated
    then show ?thesis by (simp add: e)
  qed
qed

lemma done_timers:
  "tree_timers (run_step parse lc qs (Done at) t) = tree_timers t
   \<or> (renderTimer t = None
       \<and> tree_timers (run_step parse lc qs (Done at) t)
           = tree_timers t
             @ [(tree_next_handle t, max (clock t) at + renderDelayMs, DebounceCallback)])"
  using queueRender_later_timers [of "snapshot lc (store t)" None
      "t\<lparr>clock := max (clock t) at, animationsInProgress := animationsInProgress t - 1\<rparr>"]
  by (simp add: animation_done_def queueRender_False Let_def)

subsection \<open>The sample burst\<close>

lemma sample_burst_facts:
  "idle sample_rendered_tree
   \<and> burst sample_parse sample_compare sample_querySelector sample_burst sample_rendered_tree
   \<and> requested sample_parse sample_compare sample_querySelector sample_burst sample_rendered_tree
   \<and> animationsInProgress sample_after_burst = 0
   \<and> renderTimer sample_after_burst = Some 1
   \<and> tree_timers sample_after_burst = [(1, 550, DebounceCallback)]
   \<and> rendered sample_after_burst = [snapshot sample_compare sample_store]
   \<and> rendered sample_rendered_tree = [snapshot sample_compare sample_store]
   \<and> rootElement sample_rendered_tree = [SectionElement ''s1'', TaskElement ''t1'']
   \<and> tasks (store sample_after_burst)
       = [sample_task ''t2'' None None 0 ''2024-05-01T10:00:00Z'']
   \<and> hook_calls sample_after_burst = [OnTaskRemove (TaskElement ''t1'')]"
  by code_simp

lemma sample_burst_throw:
  "apply_mutation sample_parse sample_compare sample_querySelector
     (RemoveTask (''a'' @ [CHR 0x22] @ ''b'')) sample_rendered_tree
   = (Threw (SyntaxError (''[data-task-id='' @ [CHR 0x22] @ ''a'' @ [CHR 0x22] @ ''b'' @ [CHR 0x22] @ '']'')),
      sample_rendered_tree)"
  by code_simp

subsection \<open>The dispatch of \<open>project:updated\<close>\<close>

lemma project_updated_names:
  "''project:updated'' \<noteq> ''item:completed''" "''project:updated'' \<noteq> ''item:deleted''"
  "''project:updated'' \<noteq> ''section:archived''" "''project:updated'' \<noteq> ''section:deleted''"
  "''project:updated'' \<noteq> ''item:updated''"
  by simp_all

lemma processEvent_project_updated:
  assumes "event_name msg = ''project:updated''" and "event_data msg = Some (ProjectData p)"
  shows "processEvent parse lc qs msg w = Some (Returned (), w\<lparr>projectTitle := name p\<rparr>)"
  unfolding processEvent_def
  by (simp only: assms project_updated_names if_False if_True simp_thms option.case
      event_data.case data_name.simps)

section \<open>Staleness\<close>

text \<open>
  C4. For a stored task (section), \<open>updateTask\<close> (\<open>updateSection\<close>) whose incoming
  \<open>updated_at\<close> parses to a time strictly before the stored one returns without throwing
  and leaves the whole store as it was; when the two timestamps parse to the same value
  the update is applied: the stored record is replaced, in place, by the incoming one.
\<close>

theorem staleness_rule:
  "(Map_get task_id (tasks st) (task_id t) = Some e \<and>
      parse (updated_at t) = Some i \<and> parse (updated_at e) = Some c \<and> i < c
      \<longrightarrow> updateTask parse t st = (Returned (), st))
   \<and> (Map_get task_id (tasks st) (task_id t') = Some e' \<and>
      parse (updated_at t') = parse (updated_at e')
      \<longrightarrow> updateTask parse t' st = (Returned (), st\<lparr>tasks := Map_set task_id t' (tasks st)\<rparr>)
          \<and> Map_get task_id (tasks (snd (updateTask parse t' st))) (task_id t') = Some t'
          \<and> map task_id (tasks (snd (updateTask parse t' st))) = map task_id (tasks st))
   \<and> (Map_get sec_id (sections st) (sec_id s) = Some r \<and>
      parse (sec_updated_at s) = Some j \<and> parse (sec_updated_at r) = Some d \<and> j < d
      \<longrightarrow> updateSection parse s st = (Returned True, st))
   \<and> (Map_get sec_id (sections st) (sec_id s') = Some r' \<and>
      parse (sec_updated_at s') = parse (sec_updated_at r')
      \<longrightarrow> updateSection parse s' st
            = (Returned False, st\<lparr>sections := Map_set sec_id s' (sections st)\<rparr>)
          \<and> Map_get sec_id (sections (snd (updateSection parse s' st))) (sec_id s') = Some s'
          \<and> map sec_id (sections (snd (updateSection parse s' st))) = map sec_id (sections st))"
proof (intro conjI impI)
  assume "Map_get task_id (tasks st) (task_id t) = Some e \<and>
      parse (updated_at t) = Some i \<and> parse (updated_at e) = Some c \<and> i < c"
  then show "updateTask parse t st = (Returned (), st)"
    by (simp add: updateTask_def isStale_Some)
next
  assume a: "Map_get task_id (tasks st) (task_id t') = Some e' \<and>
      parse (updated_at t') = parse (updated_at e')"
  then have ns: "\<not> isStale parse (updated_at t') (updated_at e')"
    by (simp add: isStale_same)
  with a show u: "updateTask parse t' st = (Returned (), st\<lparr>tasks := Map_set task_id t' (tasks st)\<rparr>)"
    by (simp add: updateTask_def)
  show "Map_get task_id (tasks (snd (updateTask parse t' st))) (task_id t') = Some t'"
    by (simp add: u Map_get_Map_set)
  from a have "task_id t' \<in> task_id ` set (tasks st)"
    using Map_get_None_iff [of task_id "tasks st" "task_id t'"] by simp
  then show "map task_id (tasks (snd (updateTask parse t' st))) = map task_id (tasks st)"
    by (simp add: u map_key_Map_set_present)
next
  assume "Map_get sec_id (sections st) (sec_id s) = Some r \<and>
      parse (sec_updated_at s) = Some j \<and> parse (sec_updated_at r) = Some d \<and> j < d"
  then show "updateSection parse s st = (Returned True, st)"
    by (simp add: updateSection_def isStale_Some)
next
  assume a: "Map_get sec_id (sections st) (sec_id s') = Some r' \<and>
      parse (sec_updated_at s') = parse (sec_updated_at r')"
  then have ns: "\<not> isStale parse (sec_updated_at s') (sec_updated_at r')"
    by (simp add: isStale_same)
  with a show u: "updateSection parse s' st
            = (Returned False, st\<lparr>sections := Map_set sec_id s' (sections st)\<rparr>)"
    by (simp add: updateSection_def)
  show "Map_get sec_id (sections (snd (updateSection parse s' st))) (sec_id s') = Some s'"
    by (simp add: u Map_get_Map_set)
  from a have "sec_id s' \<in> sec_id ` set (sections st)"
    using Map_get_None_iff [of sec_id "sections st" "sec_id s'"] by simp
  then show "map sec_id (sections (snd (updateSection parse s' st))) = map sec_id (sections st)"
    by (simp add: u map_key_Map_set_present)
qed

theorem staleness_rule_witness:
  "Map_get task_id (tasks sample_store) ''t1''
     = Some (sample_task ''t1'' None (Some ''s1'') 0 ''2024-05-01T10:00:00Z'')
   \<and> sample_parse ''2024-05-01T09:00:00Z'' = Some 1714554000000
   \<and> sample_parse ''2024-05-01T10:00:00Z'' = Some 1714557600000
   \<and> (1714554000000 :: int) < 1714557600000
   \<and> updateTask sample_parse (sample_task ''t1'' None None 5 ''2024-05-01T09:00:00Z'') sample_store
       = (Returned (), sample_store)
   \<and> snd (updateTask sample_parse (sample_task ''t1'' None None 5 ''2024-05-01T10:00:00Z'')
            sample_store)
       = sample_store\<lparr>tasks := [sample_task ''t1'' None None 5 ''2024-05-01T10:00:00Z'']\<rparr>
   \<and> Map_get sec_id (sections sample_store) ''s1''
       = Some (sample_section ''s1'' 0 ''2024-05-01T10:00:00Z'')
   \<and> updateSection sample_parse (sample_section ''s1'' 7 ''2024-05-01T09:00:00Z'') sample_store
       = (Returned True, sample_store)
   \<and> updateSection sample_parse (sample_section ''s1'' 7 ''2024-05-01T10:00:00Z'') sample_store
       = (Returned False,
          sample_store\<lparr>sections := [sample_section ''s1'' 7 ''2024-05-01T10:00:00Z'']\<rparr>)"
  using staleness_rule [of sample_store
      "sample_task ''t1'' None None 5 ''2024-05-01T09:00:00Z''"
      "sample_task ''t1'' None (Some ''s1'') 0 ''2024-05-01T10:00:00Z''"
      sample_parse 1714554000000 1714557600000
      "sample_task ''t1'' None None 5 ''2024-05-01T10:00:00Z''"
      "sample_task ''t1'' None (Some ''s1'') 0 ''2024-05-01T10:00:00Z''"
      "sample_section ''s1'' 7 ''2024-05-01T09:00:00Z''"
      "sample_section ''s1'' 0 ''2024-05-01T10:00:00Z''"
      1714554000000 1714557600000
      "sample_section ''s1'' 7 ''2024-05-01T10:00:00Z''"
      "sample_section ''s1'' 0 ''2024-05-01T10:00:00Z''"]
  by (simp add: sample_store_def sample_task_def sample_section_def sample_parse_def Map_get_def)

section \<open>Errors of the store\<close>

text \<open>
  C8. \<open>addTask\<close> throws exactly when the id is already stored, with the "already exists"
  error, and otherwise appends the task; \<open>updateTask\<close> and \<open>updateSection\<close> throw exactly
  when the id is not stored, with the "does not exist" error; \<open>addSection\<close> never throws and
  always writes the section, whatever its timestamp; and whenever one of them throws, the
  store after the call is the store before it.
\<close>

theorem store_errors:
  "((\<exists>e. fst (addTask t st) = Threw e) \<longleftrightarrow> Map_has task_id (tasks st) (task_id t))
   \<and> (Map_has task_id (tasks st) (task_id t)
        \<longrightarrow> addTask t st = (Threw (TaskAlreadyExists (task_id t)), st))
   \<and> (\<not> Map_has task_id (tasks st) (task_id t)
        \<longrightarrow> addTask t st = (Returned (), st\<lparr>tasks := tasks st @ [t]\<rparr>))
   \<and> ((\<exists>e. fst (updateTask parse t st) = Threw e) \<longleftrightarrow> \<not> Map_has task_id (tasks st) (task_id t))
   \<and> (\<not> Map_has task_id (tasks st) (task_id t)
        \<longrightarrow> updateTask parse t st = (Threw (TaskNotFound (task_id t)), st))
   \<and> ((\<exists>e. fst (updateSection parse s st) = Threw e)
        \<longleftrightarrow> \<not> Map_has sec_id (sections st) (sec_id s))
   \<and> (\<not> Map_has sec_id (sections st) (sec_id s)
        \<longrightarrow> updateSection parse s st = (Threw (SectionNotFound (sec_id s)), st))
   \<and> addSection s st = (Returned (), st\<lparr>sections := Map_set sec_id s (sections st)\<rparr>)
   \<and> Map_get sec_id (sections (snd (addSection s st))) (sec_id s) = Some s
   \<and> (\<forall>e. fst (addTask t st) = Threw e \<longrightarrow> snd (addTask t st) = st)
   \<and> (\<forall>e. fst (updateTask parse t st) = Threw e \<longrightarrow> snd (updateTask parse t st) = st)
   \<and> (\<forall>e. fst (updateSection parse s st) = Threw e \<longrightarrow> snd (updateSection parse s st) = st)"
proof -
  have a1: "Map_has task_id (tasks st) (task_id t)
        \<Longrightarrow> addTask t st = (Threw (TaskAlreadyExists (task_id t)), st)"
    by (simp add: addTask_def)
  have a2: "\<not> Map_has task_id (tasks st) (task_id t)
        \<Longrightarrow> addTask t st = (Returned (), st\<lparr>tasks := tasks st @ [t]\<rparr>)"
    by (simp add: addTask_def Map_has_iff Map_set_absent)
  have u1: "\<not> Map_has task_id (tasks st) (task_id t)
        \<Longrightarrow> updateTask parse t st = (Threw (TaskNotFound (task_id t)), st)"
    by (simp add: updateTask_def Map_has_def)
  have u2: "Map_has task_id (tasks st) (task_id t) \<Longrightarrow> \<exists>st'. updateTask parse t st = (Returned (), st')"
    by (auto simp: updateTask_def Map_has_def)
  have s1: "\<not> Map_has sec_id (sections st) (sec_id s)
        \<Longrightarrow> updateSection parse s st = (Threw (SectionNotFound (sec_id s)), st)"
    by (simp add: updateSection_def Map_has_def)
  have s2: "Map_has sec_id (sections st) (sec_id s)
        \<Longrightarrow> \<exists>b st'. updateSection parse s st = (Returned b, st')"
    by (auto simp: updateSection_def Map_has_def)
  have ad: "addSection s st = (Returned (), st\<lparr>sections := Map_set sec_id s (sections st)\<rparr>)"
    by (simp add: addSection_def)
  show ?thesis
  proof (intro conjI impI allI)
    show "(\<exists>e. fst (addTask t st) = Threw e) \<longleftrightarrow> Map_has task_id (tasks st) (task_id t)"
      using a1 a2 by (cases "Map_has task_id (tasks st) (task_id t)") auto
    show "(\<exists>e. fst (updateTask parse t st) = Threw e) \<longleftrightarrow> \<not> Map_has task_id (tasks st) (task_id t)"
      using u1 u2 by (cases "Map_has task_id (tasks st) (task_id t)") auto
    show "(\<exists>e. fst (updateSection parse s st) = Threw e)
        \<longleftrightarrow> \<not> Map_has sec_id (sections st) (sec_id s)"
      using s1 s2 by (cases "Map_has sec_id (sections st) (sec_id s)") auto
    show "Map_get sec_id (sections (snd (addSection s st))) (sec_id s) = Some s"
      by (simp add: ad Map_get_Map_set)
    show "\<And>e. fst (addTask t st) = Threw e \<Longrightarrow> snd (addTask t st) = st"
      using a1 a2 by (cases "Map_has task_id (tasks st) (task_id t)") auto
    show "\<And>e. fst (updateTask parse t st) = Threw e \<Longrightarrow> snd (updateTask parse t st) = st"
      using u1 u2 by (cases "Map_has task_id (tasks st) (task_id t)") auto
    show "\<And>e. fst (updateSection parse s st) = Threw e \<Longrightarrow> snd (updateSection parse s st) = st"
      using s1 s2 by (cases "Map_has sec_id (sections st) (sec_id s)") auto
  qed (simp_all add: a1 a2 u1 s1 ad)
qed

theorem store_errors_witness:
  "Map_has task_id (tasks sample_store) ''t1''
   \<and> addTask (sample_task ''t1'' None None 5 ''2024-05-01T10:00:00Z'') sample_store
       = (Threw (TaskAlreadyExists ''t1''), sample_store)
   \<and> \<not> Map_has task_id (tasks sample_store) ''t2''
   \<and> addTask (sample_task ''t2'' None None 5 ''2024-05-01T10:00:00Z'') sample_store
       = (Returned (),
          sample_store\<lparr>tasks := tasks sample_store
                                   @ [sample_task ''t2'' None None 5 ''2024-05-01T10:00:00Z'']\<rparr>)
   \<and> updateTask sample_parse (sample_task ''t2'' None None 5 ''2024-05-01T10:00:00Z'') sample_store
       = (Threw (TaskNotFound ''t2''), sample_store)
   \<and> \<not> Map_has sec_id (sections sample_store) ''s2''
   \<and> updateSection sample_parse (sample_section ''s2'' 1 ''2024-05-01T10:00:00Z'') sample_store
       = (Threw (SectionNotFound ''s2''), sample_store)
   \<and> fst (addSection (sample_section ''s1'' 4 ''2024-05-01T09:00:00Z'') sample_store) = Returned ()
   \<and> sections (snd (addSection (sample_section ''s1'' 4 ''2024-05-01T09:00:00Z'') sample_store))
       = [sample_section ''s1'' 4 ''2024-05-01T09:00:00Z'']"
  using store_errors [of "sample_task ''t1'' None None 5 ''2024-05-01T10:00:00Z''" sample_store
      sample_parse "sample_section ''s1'' 4 ''2024-05-01T09:00:00Z''"]
    store_errors [of "sample_task ''t2'' None None 5 ''2024-05-01T10:00:00Z''" sample_store
      sample_parse "sample_section ''s2'' 1 ''2024-05-01T10:00:00Z''"]
  by (simp add: sample_store_def sample_task_def sample_section_def Map_has_def Map_get_def)

section \<open>Unparseable timestamps\<close>

text \<open>
  C10. For a stored task (section), when \<open>Date.parse\<close> gives \<open>NaN\<close> on the incoming or
  on the stored \<open>updated_at\<close>, \<open>updateTask\<close> (\<open>updateSection\<close>) does not skip: it returns
  normally and the stored record is replaced by the incoming one.
\<close>

theorem unparseable_not_stale:
  "(Map_get task_id (tasks st) (task_id t) = Some e \<and>
      (parse (updated_at t) = None \<or> parse (updated_at e) = None)
      \<longrightarrow> updateTask parse t st = (Returned (), st\<lparr>tasks := Map_set task_id t (tasks st)\<rparr>)
          \<and> Map_get task_id (tasks (snd (updateTask parse t st))) (task_id t) = Some t)
   \<and> (Map_get sec_id (sections st) (sec_id s) = Some r \<and>
      (parse (sec_updated_at s) = None \<or> parse (sec_updated_at r) = None)
      \<longrightarrow> updateSection parse s st
            = (Returned False, st\<lparr>sections := Map_set sec_id s (sections st)\<rparr>)
          \<and> Map_get sec_id (sections (snd (updateSection parse s st))) (sec_id s) = Some s)"
proof (intro conjI impI)
  assume a: "Map_get task_id (tasks st) (task_id t) = Some e \<and>
      (parse (updated_at t) = None \<or> parse (updated_at e) = None)"
  then have "\<not> isStale parse (updated_at t) (updated_at e)"
    by (simp add: isStale_None)
  with a show u: "updateTask parse t st = (Returned (), st\<lparr>tasks := Map_set task_id t (tasks st)\<rparr>)"
    by (simp add: updateTask_def)
  show "Map_get task_id (tasks (snd (updateTask parse t st))) (task_id t) = Some t"
    by (simp add: u Map_get_Map_set)
next
  assume a: "Map_get sec_id (sections st) (sec_id s) = Some r \<and>
      (parse (sec_updated_at s) = None \<or> parse (sec_updated_at r) = None)"
  then have "\<not> isStale parse (sec_updated_at s) (sec_updated_at r)"
    by (simp add: isStale_None)
  with a show u: "updateSection parse s st
            = (Returned False, st\<lparr>sections := Map_set sec_id s (sections st)\<rparr>)"
    by (simp add: updateSection_def)
  show "Map_get sec_id (sections (snd (updateSection parse s st))) (sec_id s) = Some s"
    by (simp add: u Map_get_Map_set)
qed

theorem unparseable_not_stale_witness:
  "Map_get task_id (tasks sample_store) ''t1''
     = Some (sample_task ''t1'' None (Some ''s1'') 0 ''2024-05-01T10:00:00Z'')
   \<and> sample_parse ''yesterday'' = None
   \<and> updateTask sample_parse (sample_task ''t1'' None None 5 ''yesterday'') sample_store
       = (Returned (), sample_store\<lparr>tasks := [sample_task ''t1'' None None 5 ''yesterday'']\<rparr>)
   \<and> Map_get sec_id (sections sample_store) ''s1''
       = Some (sample_section ''s1'' 0 ''2024-05-01T10:00:00Z'')
   \<and> updateSection sample_parse (sample_section ''s1'' 7 ''yesterday'') sample_store
       = (Returned False, sample_store\<lparr>sections := [sample_section ''s1'' 7 ''yesterday'']\<rparr>)"
  using unparseable_not_stale [of sample_store "sample_task ''t1'' None None 5 ''yesterday''"
      "sample_task ''t1'' None (Some ''s1'') 0 ''2024-05-01T10:00:00Z''" sample_parse
      "sample_section ''s1'' 7 ''yesterday''" "sample_section ''s1'' 0 ''2024-05-01T10:00:00Z''"]
  by (simp add: sample_store_def sample_task_def sample_section_def sample_parse_def Map_get_def)

section \<open>Sibling order\<close>



section \<open>Cascading removal of a task\<close>

text \<open>
  C5. \<open>removeTask\<close> leaves the store as it is when the id is not stored; otherwise it
  removes exactly the stored tasks whose chain of \<open>parent_id\<close>s leads back to the id, the
  task itself included, and no id of such a task occurs in the snapshot taken afterwards.
\<close>

theorem removeTask_cascade:
  "(\<not> Map_has task_id (tasks st) i \<longrightarrow> removeTask i st = st)
   \<and> (Map_has task_id (tasks st) i \<longrightarrow>
        removeTask i st
          = st\<lparr>tasks := filter (\<lambda>t. \<not> leads_back (tasks st) i (task_id t)) (tasks st)\<rparr>
        \<and> (\<forall>x. leads_back (tasks st) i x
              \<longrightarrow> x \<notin> set (snapshot_ids (snapshot lc (removeTask i st)))))"
proof (intro conjI impI allI)
  assume "\<not> Map_has task_id (tasks st) i"
  then show "removeTask i st = st" by (simp add: removeTask_def)
next
  assume h: "Map_has task_id (tasks st) i"
  then show r: "removeTask i st
          = st\<lparr>tasks := filter (\<lambda>t. \<not> leads_back (tasks st) i (task_id t)) (tasks st)\<rparr>"
    by (simp add: removeTask_def removeTask_loop_eq del: removeTask_loop.simps)
  fix x assume x: "leads_back (tasks st) i x"
  have "x \<notin> task_id ` set (tasks (removeTask i st))"
    using x by (auto simp: r)
  then show "x \<notin> set (snapshot_ids (snapshot lc (removeTask i st)))"
    using set_snapshot_ids [of lc "removeTask i st"] by blast
qed

theorem removeTask_cascade_witness:
  "Map_has task_id (tasks sample_family) ''P''
   \<and> ''P'' \<notin> set (snapshot_ids (snapshot sample_compare (removeTask ''P'' sample_family)))
   \<and> ''C'' \<notin> set (snapshot_ids (snapshot sample_compare (removeTask ''P'' sample_family)))
   \<and> ''G'' \<notin> set (snapshot_ids (snapshot sample_compare (removeTask ''P'' sample_family)))
   \<and> tasks (removeTask ''P'' sample_family) = [sample_task ''X'' None None 2 ''2024-05-01T10:00:00Z'']
   \<and> \<not> Map_has task_id (tasks sample_family) ''Q''
   \<and> removeTask ''Q'' sample_family = sample_family"
proof -
  let ?ts = "tasks sample_family"
  have h: "Map_has task_id ?ts ''P''" using sample_family_removeTask by simp
  have p: "leads_back ?ts ''P'' ''P''" by (rule leads_back.self)
  have c: "leads_back ?ts ''P'' ''C''"
    using leads_back.child [of "sample_task ''C'' (Some ''P'') (Some ''s1'') 1 ''2024-05-01T10:00:00Z''"
        ?ts "''P''" "''P''"] p
    by (simp add: sample_family_def sample_task_def)
  have g: "leads_back ?ts ''P'' ''G''"
    using leads_back.child [of "sample_task ''G'' (Some ''C'') None 1 ''2024-05-01T10:00:00Z''"
        ?ts "''C''" "''P''"] c
    by (simp add: sample_family_def sample_task_def)
  have q: "\<not> Map_has task_id ?ts ''Q''" by code_simp
  show ?thesis
    using removeTask_cascade [of sample_family "''P''" sample_compare]
      removeTask_cascade [of sample_family "''Q''" sample_compare]
      h p c g q sample_family_removeTask
    by blast
qed

section \<open>Removal of a section\<close>

text \<open>
  C2, as amended. \<open>removeSection\<close> leaves the store as it is when the section is not
  stored; otherwise it removes every stored task that carries the section id, root or not,
  together with all tasks whose chain of \<open>parent_id\<close>s leads back to one of them, and then
  deletes the section record. The claim as stated (only root tasks are selected) fails:
  in \<open>sample_family\<close> the task C has a parent and carries section s1, and removing s1
  removes C and its child G.
\<close>

theorem removeSection_cascade:
  "(\<not> Map_has sec_id (sections st) sid \<longrightarrow> removeSection sid st = st)
   \<and> (Map_has sec_id (sections st) sid \<longrightarrow>
        removeSection sid st
          = st\<lparr>sections := Map_delete sec_id sid (sections st),
               tasks := filter
                 (\<lambda>t. \<not> (\<exists>r\<in>set (tasks st). section_id r = Some sid
                            \<and> leads_back (tasks st) (task_id r) (task_id t)))
                 (tasks st)\<rparr>
        \<and> \<not> Map_has sec_id (sections (removeSection sid st)) sid
        \<and> (\<forall>t\<in>set (tasks (removeSection sid st)). section_id t \<noteq> Some sid))"
proof (intro conjI impI)
  assume "\<not> Map_has sec_id (sections st) sid"
  then show "removeSection sid st = st" by (simp add: removeSection_def)
next
  assume h: "Map_has sec_id (sections st) sid"
  let ?rs = "filter (\<lambda>task. section_id task = Some sid) (tasks st)"
  let ?st' = "fold (\<lambda>task. removeTask (task_id task)) ?rs st"
  have "tasks ?st'
          = filter (\<lambda>t. \<not> (\<exists>r\<in>{} \<union> task_id ` set ?rs. leads_back (tasks st) r (task_id t)))
              (tasks st)"
    by (rule fold_removeTask) auto
  also have "\<dots> = filter
                 (\<lambda>t. \<not> (\<exists>r\<in>set (tasks st). section_id r = Some sid
                            \<and> leads_back (tasks st) (task_id r) (task_id t)))
                 (tasks st)"
    by (auto intro: filter_cong)
  finally have t: "tasks ?st' = filter
                 (\<lambda>t. \<not> (\<exists>r\<in>set (tasks st). section_id r = Some sid
                            \<and> leads_back (tasks st) (task_id r) (task_id t)))
                 (tasks st)" .
  have "removeSection sid st = ?st'\<lparr>sections := Map_delete sec_id sid (sections ?st')\<rparr>"
    using h by (simp add: removeSection_def Let_def)
  then show r: "removeSection sid st
          = st\<lparr>sections := Map_delete sec_id sid (sections st),
               tasks := filter
                 (\<lambda>t. \<not> (\<exists>r\<in>set (tasks st). section_id r = Some sid
                            \<and> leads_back (tasks st) (task_id r) (task_id t)))
                 (tasks st)\<rparr>"
    using t fold_removeTask_frame [of ?rs st] by (simp add: TaskStore.equality)
  show "\<not> Map_has sec_id (sections (removeSection sid st)) sid"
    by (auto simp: r Map_has_iff Map_delete_def)
  show "\<forall>t\<in>set (tasks (removeSection sid st)). section_id t \<noteq> Some sid"
    by (auto simp: r intro: leads_back.self)
qed

theorem removeSection_cascade_witness:
  "Map_has sec_id (sections sample_family) ''s1''
   \<and> \<not> Map_has sec_id (sections (removeSection ''s1'' sample_family)) ''s1''
   \<and> tasks (removeSection ''s1'' sample_family)
       = [sample_task ''P'' None (Some ''s2'') 1 ''2024-05-01T10:00:00Z'',
          sample_task ''X'' None None 2 ''2024-05-01T10:00:00Z'']
   \<and> \<not> Map_has sec_id (sections sample_family) ''s9''
   \<and> removeSection ''s9'' sample_family = sample_family"
  using removeSection_cascade [of sample_family "''s1''"]
    removeSection_cascade [of sample_family "''s9''"] sample_family_removeSection
  by blast

theorem removeSection_selects_non_root:
  "removeSection ''s1'' sample_family \<noteq> removeSection_spec ''s1'' sample_family"
  by code_simp

section \<open>Root tasks of an unknown section\<close>

text \<open>
  C1. The claim is that a root task whose \<open>section_id\<close> names no stored section is listed
  under \<open>unsectioned\<close>. The source lists it nowhere: the grouping skips it because the
  section is unknown, and the filter for \<open>unsectioned\<close> skips it because its \<open>section_id\<close>
  is truthy. The theorem evaluates \<open>snapshot\<close> on a store holding one such task.
\<close>

theorem dangling_section_root_dropped:
  "snapshot sample_compare
     \<lparr>project = None, sections = [],
      tasks = [sample_task ''t1'' None (Some ''s9'') 0 ''2024-05-01T10:00:00Z'']\<rparr>
   = \<lparr>snap_project = None, snap_sections = [], unsectioned = []\<rparr>"
  by code_simp

section \<open>Replay of buffered events\<close>




section \<open>Debounced rendering\<close>

text \<open>
  C9, as amended. The window is 150. Take an idle tree and a burst: calls of the public
  methods and \<open>done\<close> callbacks of exit animations, each before a live timer is due, and
  expiries of the timer while an exit animation is in progress. Nothing is rendered
  during the burst. When no call of the burst requests a render (each throws, or is an
  \<open>updateSection\<close> skipped as stale), the tree is as it was and no render follows. When a
  call of the burst requests a render and no exit animation is in progress at its end,
  the debounce timer is the one live timer, due 150 after a call or a \<open>done\<close> of the burst,
  and when it expires exactly one render is executed, of the snapshot of the store as the
  whole burst left it, and no timer is left. When an exit animation is still in progress
  at the end of the burst, the render is deferred: once the outstanding \<open>done\<close> callbacks
  have run, the debounce timer is armed and its expiry executes that one render. The
  window is fixed: a call or a \<open>done\<close> arms a timer, due 150 later, only when none is
  armed, and leaves the timers alone otherwise. The host's \<open>querySelector\<close> is arbitrary.
  The claim as stated (every sequence of mutations) fails: after an \<open>updateSection\<close> that
  is skipped as stale, and after an \<open>addTask\<close> that throws, nothing is pending, no timer is
  armed and nothing is rendered.
\<close>

theorem debounced_render:
  assumes "idle t0" and "burst parse lc qs steps t0"
  shows "renderDelayMs = 150
    \<and> (let t1 = fold (run_step parse lc qs) steps t0
        in rendered t1 = rendered t0
           \<and> (\<not> requested parse lc qs steps t0 \<longrightarrow> t1 = t0\<lparr>clock := clock t1\<rparr>)
           \<and> (requested parse lc qs steps t0 \<and> animationsInProgress t1 = 0 \<longrightarrow>
                (\<exists>h due. renderTimer t1 = Some h
                   \<and> tree_timers t1 = [(h, due, DebounceCallback)]
                   \<and> clock t1 < due \<and> due - renderDelayMs \<in> set (step_times steps)
                   \<and> pendingSnapshot t1 = Some (snapshot lc (store t1))
                   \<and> rendered (snd (timer_expires qs h t1))
                       = rendered t0 @ [snapshot lc (store t1)]
                   \<and> pendingSnapshot (snd (timer_expires qs h t1)) = None
                   \<and> tree_timers (snd (timer_expires qs h t1)) = []
                   \<and> store (snd (timer_expires qs h t1)) = store t1
                   \<and> (fst (timer_expires qs h t1) = Returned ()
                        \<longrightarrow> idle (snd (timer_expires qs h t1)))))
           \<and> (animationsInProgress t1 \<noteq> 0 \<longrightarrow>
                requested parse lc qs steps t0 \<and> animationsInProgress t1 > 0
                \<and> (let t2 = fold (run_step parse lc qs)
                               (replicate (nat (animationsInProgress t1)) (Done (clock t1))) t1
                    in animationsInProgress t2 = 0 \<and> store t2 = store t1
                       \<and> (\<exists>h due. renderTimer t2 = Some h
                             \<and> tree_timers t2 = [(h, due, DebounceCallback)]
                             \<and> rendered (snd (timer_expires qs h t2))
                                 = rendered t0 @ [snapshot lc (store t1)]
                             \<and> tree_timers (snd (timer_expires qs h t2)) = []))))
    \<and> (\<forall>sec t. fst (updateSection parse sec (store t)) = Returned True
          \<longrightarrow> apply_mutation parse lc qs (UpdateSection sec) t = (Returned (), t))
    \<and> (\<forall>t at m.
          tree_timers (run_step parse lc qs (Call at m) t) = tree_timers t
          \<or> (renderTimer t = None
              \<and> tree_timers (run_step parse lc qs (Call at m) t)
                  = tree_timers t
                    @ [(tree_next_handle t, max (clock t) at + renderDelayMs, DebounceCallback)]))
    \<and> (\<forall>t at.
          tree_timers (run_step parse lc qs (Done at) t) = tree_timers t
          \<or> (renderTimer t = None
              \<and> tree_timers (run_step parse lc qs (Done at) t)
                  = tree_timers t
                    @ [(tree_next_handle t, max (clock t) at + renderDelayMs, DebounceCallback)]))"
proof -
  let ?T = "set (step_times steps)"
  let ?req = "requested parse lc qs steps t0"
  define t1 where "t1 = fold (run_step parse lc qs) steps t0"
  have "in_progress lc t0 {} False t0" by (simp add: in_progress_def untouched_def)
  from burst_in_progress [OF assms(1) this assms(2)]
  have P: "in_progress lc t0 ?T ?req t1" by (simp add: t1_def)
  have z: "animationsInProgress t0 = 0" using assms(1) by (simp add: idle_def)
  have c1: "rendered t1 = rendered t0"
  proof (cases ?req)
    case False
    then have "t1 = t0\<lparr>clock := clock t1\<rparr>" using P by (simp add: in_progress_def untouched_def)
    then have "rendered t1 = rendered (t0\<lparr>clock := clock t1\<rparr>)" by simp
    then show ?thesis by simp
  next
    case True
    then show ?thesis using P by (auto simp: in_progress_def debouncing_def animating_def)
  qed
  have c2: "t1 = t0\<lparr>clock := clock t1\<rparr>" if "\<not> ?req"
    using that P by (simp add: in_progress_def untouched_def)
  have c3: "\<exists>h due. renderTimer t1 = Some h
                   \<and> tree_timers t1 = [(h, due, DebounceCallback)]
                   \<and> clock t1 < due \<and> due - renderDelayMs \<in> ?T
                   \<and> pendingSnapshot t1 = Some (snapshot lc (store t1))
                   \<and> rendered (snd (timer_expires qs h t1))
                       = rendered t0 @ [snapshot lc (store t1)]
                   \<and> pendingSnapshot (snd (timer_expires qs h t1)) = None
                   \<and> tree_timers (snd (timer_expires qs h t1)) = []
                   \<and> store (snd (timer_expires qs h t1)) = store t1
                   \<and> (fst (timer_expires qs h t1) = Returned ()
                        \<longrightarrow> idle (snd (timer_expires qs h t1)))"
    if "?req" "animationsInProgress t1 = 0"
  proof -
    have d: "debouncing lc t0 ?T t1"
      using that P by (auto simp: in_progress_def animating_def)
    then obtain h due where t: "renderTimer t1 = Some h"
      "tree_timers t1 = [(h, due, DebounceCallback)]" "clock t1 < due" "due - renderDelayMs \<in> ?T"
      unfolding debouncing_def debounce_timer_def by blast
    have p: "pendingSnapshot t1 = Some (snapshot lc (store t1))"
      using d by (simp add: debouncing_def)
    note e = timer_expires_debouncing [OF d t(1), of qs]
    show ?thesis using t p e by blast
  qed
  have c4: "?req \<and> animationsInProgress t1 > 0
            \<and> (let t2 = fold (run_step parse lc qs)
                               (replicate (nat (animationsInProgress t1)) (Done (clock t1))) t1
                in animationsInProgress t2 = 0 \<and> store t2 = store t1
                   \<and> (\<exists>h due. renderTimer t2 = Some h
                         \<and> tree_timers t2 = [(h, due, DebounceCallback)]
                         \<and> rendered (snd (timer_expires qs h t2))
                             = rendered t0 @ [snapshot lc (store t1)]
                         \<and> tree_timers (snd (timer_expires qs h t2)) = []))"
    if nz: "animationsInProgress t1 \<noteq> 0"
  proof -
    have req: "?req"
    proof (rule ccontr)
      assume "\<not> ?req"
      then have "t1 = t0\<lparr>clock := clock t1\<rparr>" by (rule c2)
      then have "animationsInProgress t1 = animationsInProgress (t0\<lparr>clock := clock t1\<rparr>)" by simp
      then show False using z nz by simp
    qed
    have pos: "animationsInProgress t1 > 0"
      using P req nz by (auto simp: in_progress_def debouncing_def animating_def)
    define k where "k = nat (animationsInProgress t1)"
    have k: "animationsInProgress t1 = int k" using pos by (simp add: k_def)
    define t2 where "t2 = fold (run_step parse lc qs) (replicate k (Done (clock t1))) t1"
    note o = outstanding_dones [OF assms(1) P k, of parse qs]
    have b: "burst parse lc qs (replicate k (Done (clock t1))) t1" using o by blast
    have a2: "animationsInProgress t2 = 0" and s2: "store t2 = store t1"
      using o by (simp_all add: t2_def)
    from burst_in_progress [OF assms(1) P b]
    obtain T' where "in_progress lc t0 T' True t2" using req by (auto simp: t2_def)
    then have d: "debouncing lc t0 T' t2"
      using a2 by (auto simp: in_progress_def animating_def)
    then obtain h due where t: "renderTimer t2 = Some h"
      "tree_timers t2 = [(h, due, DebounceCallback)]"
      unfolding debouncing_def debounce_timer_def by blast
    note e = timer_expires_debouncing [OF d t(1), of qs]
    have "\<exists>h due. renderTimer t2 = Some h
                         \<and> tree_timers t2 = [(h, due, DebounceCallback)]
                         \<and> rendered (snd (timer_expires qs h t2))
                             = rendered t0 @ [snapshot lc (store t1)]
                         \<and> tree_timers (snd (timer_expires qs h t2)) = []"
      using t e(1,3) s2 by auto
    then show ?thesis using req pos a2 s2 unfolding Let_def k_def [symmetric] t2_def [symmetric]
      by blast
  qed
  have c5: "\<forall>sec t. fst (updateSection parse sec (store t)) = Returned True
          \<longrightarrow> apply_mutation parse lc qs (UpdateSection sec) t = (Returned (), t)"
    using skipped_updateSection by blast
  have c6: "\<forall>t at m.
          tree_timers (run_step parse lc qs (Call at m) t) = tree_timers t
          \<or> (renderTimer t = None
              \<and> tree_timers (run_step parse lc qs (Call at m) t)
                  = tree_timers t
                    @ [(tree_next_handle t, max (clock t) at + renderDelayMs, DebounceCallback)])"
    using issue_timers [of parse lc qs] by simp
  have c7: "\<forall>t at.
          tree_timers (run_step parse lc qs (Done at) t) = tree_timers t
          \<or> (renderTimer t = None
              \<and> tree_timers (run_step parse lc qs (Done at) t)
                  = tree_timers t
                    @ [(tree_next_handle t, max (clock t) at + renderDelayMs, DebounceCallback)])"
    using done_timers [of parse lc qs] by blast
  have r: "renderDelayMs = 150" by (simp add: renderDelayMs_def)
  have main: "let t1 = fold (run_step parse lc qs) steps t0
        in rendered t1 = rendered t0
           \<and> (\<not> requested parse lc qs steps t0 \<longrightarrow> t1 = t0\<lparr>clock := clock t1\<rparr>)
           \<and> (requested parse lc qs steps t0 \<and> animationsInProgress t1 = 0 \<longrightarrow>
                (\<exists>h due. renderTimer t1 = Some h
                   \<and> tree_timers t1 = [(h, due, DebounceCallback)]
                   \<and> clock t1 < due \<and> due - renderDelayMs \<in> set (step_times steps)
                   \<and> pendingSnapshot t1 = Some (snapshot lc (store t1))
                   \<and> rendered (snd (timer_expires qs h t1))
                       = rendered t0 @ [snapshot lc (store t1)]
                   \<and> pendingSnapshot (snd (timer_expires qs h t1)) = None
                   \<and> tree_timers (snd (timer_expires qs h t1)) = []
                   \<and> store (snd (timer_expires qs h t1)) = store t1
                   \<and> (fst (timer_expires qs h t1) = Returned ()
                        \<longrightarrow> idle (snd (timer_expires qs h t1)))))
           \<and> (animationsInProgress t1 \<noteq> 0 \<longrightarrow>
                requested parse lc qs steps t0 \<and> animationsInProgress t1 > 0
                \<and> (let t2 = fold (run_step parse lc qs)
                               (replicate (nat (animationsInProgress t1)) (Done (clock t1))) t1
                    in animationsInProgress t2 = 0 \<and> store t2 = store t1
                       \<and> (\<exists>h due. renderTimer t2 = Some h
                             \<and> tree_timers t2 = [(h, due, DebounceCallback)]
                             \<and> rendered (snd (timer_expires qs h t2))
                                 = rendered t0 @ [snapshot lc (store t1)]
                             \<and> tree_timers (snd (timer_expires qs h t2)) = [])))"
    unfolding Let_def t1_def [symmetric]
    using c1 c2 c3 c4 [unfolded Let_def] by blast
  show ?thesis
    using r main c5 c6 c7 by (intro conjI)
qed

theorem debounced_render_witness:
  "idle sample_rendered_tree
   \<and> burst sample_parse sample_compare sample_querySelector sample_burst sample_rendered_tree
   \<and> requested sample_parse sample_compare sample_querySelector sample_burst sample_rendered_tree
   \<and> rendered sample_after_burst = [snapshot sample_compare sample_store]
   \<and> tree_timers sample_after_burst = [(1, 550, DebounceCallback)]
   \<and> tasks (store sample_after_burst)
       = [sample_task ''t2'' None None 0 ''2024-05-01T10:00:00Z'']
   \<and> rendered (snd (timer_expires sample_querySelector 1 sample_after_burst))
       = [snapshot sample_compare sample_store,
          snapshot sample_compare (store sample_after_burst)]
   \<and> tree_timers (snd (timer_expires sample_querySelector 1 sample_after_burst)) = []"
proof -
  note f = sample_burst_facts
  have i: "idle sample_rendered_tree" using f by blast
  have b: "burst sample_parse sample_compare sample_querySelector sample_burst
             sample_rendered_tree" using f by blast
  have r: "requested sample_parse sample_compare sample_querySelector sample_burst
             sample_rendered_tree" using f by blast
  have a: "animationsInProgress sample_after_burst = 0" using f by blast
  have h: "renderTimer sample_after_burst = Some 1" using f by blast
  have "\<exists>h due. renderTimer sample_after_burst = Some h
          \<and> tree_timers sample_after_burst = [(h, due, DebounceCallback)]
          \<and> rendered (snd (timer_expires sample_querySelector h sample_after_burst))
              = rendered sample_rendered_tree
                @ [snapshot sample_compare (store sample_after_burst)]
          \<and> tree_timers (snd (timer_expires sample_querySelector h sample_after_burst)) = []"
    using debounced_render [OF i b] r a
    unfolding Let_def sample_after_burst_def [symmetric] by blast
  then have "rendered (snd (timer_expires sample_querySelector 1 sample_after_burst))
              = rendered sample_rendered_tree
                @ [snapshot sample_compare (store sample_after_burst)]
          \<and> tree_timers (snd (timer_expires sample_querySelector 1 sample_after_burst)) = []"
    using h by auto
  then show ?thesis using f by simp
qed

theorem render_not_always_once:
  "idle sample_tree
   \<and> burst sample_parse sample_compare sample_querySelector sample_stale_burst sample_tree
   \<and> rendered (fold (run_step sample_parse sample_compare sample_querySelector)
        sample_stale_burst sample_tree) = []
   \<and> tree_timers (fold (run_step sample_parse sample_compare sample_querySelector)
        sample_stale_burst sample_tree) = []
   \<and> pendingSnapshot (fold (run_step sample_parse sample_compare sample_querySelector)
        sample_stale_burst sample_tree) = None
   \<and> animationsInProgress (fold (run_step sample_parse sample_compare sample_querySelector)
        sample_stale_burst sample_tree) = 0
   \<and> fold (run_step sample_parse sample_compare sample_querySelector)
        sample_stale_burst sample_tree = sample_tree
   \<and> burst sample_parse sample_compare sample_querySelector sample_throwing_burst sample_tree
   \<and> fold (run_step sample_parse sample_compare sample_querySelector)
        sample_throwing_burst sample_tree = sample_tree"
  by code_simp

section \<open>The event \<open>project:updated\<close>\<close>

text \<open>
  C3, as amended. \<open>processEvent\<close> on a \<open>project:updated\<close> message sets the text of the
  widget's title element to the payload's name and changes nothing else: the task tree,
  and with it the stored project header, the stored tasks and sections and the snapshot,
  are as before, and no render is requested. The claim as stated fails: the stored
  project keeps its name, and the snapshot taken afterwards carries the old name.
\<close>

theorem project_updated_sets_title:
  assumes "event_name msg = ''project:updated''" and "event_data msg = Some (ProjectData p)"
  shows "processEvent parse lc qs msg w = Some (Returned (), w\<lparr>projectTitle := name p\<rparr>)
    \<and> (\<forall>r w'. processEvent parse lc qs msg w = Some (r, w') \<longrightarrow>
          r = Returned () \<and> projectTitle w' = name p \<and> taskTree w' = taskTree w
          \<and> project (store (taskTree w')) = project (store (taskTree w))
          \<and> tasks (store (taskTree w')) = tasks (store (taskTree w))
          \<and> sections (store (taskTree w')) = sections (store (taskTree w))
          \<and> snapshot lc (store (taskTree w')) = snapshot lc (store (taskTree w)))"
  using processEvent_project_updated [OF assms, of parse lc qs w] by simp

theorem project_updated_sets_title_witness:
  "event_name sample_rename = ''project:updated''
   \<and> processEvent sample_parse sample_compare sample_querySelector sample_rename sample_widget
       = Some (Returned (), sample_widget\<lparr>projectTitle := ''Q''\<rparr>)"
proof -
  have h1: "event_name sample_rename = ''project:updated''"
    by (simp add: sample_rename_def)
  have h2: "event_data sample_rename
              = Some (ProjectData \<lparr>name = ''Q'', extra_fields = [(''id'', ''p1'')]\<rparr>)"
    by (simp add: sample_rename_def)
  have "processEvent sample_parse sample_compare sample_querySelector sample_rename sample_widget
          = Some (Returned (),
                  sample_widget\<lparr>projectTitle := name \<lparr>name = ''Q'', extra_fields = [(''id'', ''p1'')]\<rparr>\<rparr>)"
    using project_updated_sets_title [OF h1 h2, of sample_parse sample_compare sample_querySelector sample_widget]
    by (rule conjunct1)
  then show ?thesis using h1 by simp
qed

theorem project_updated_keeps_stored_name:
  "map_option (\<lambda>(r, w). map_option name (snap_project (snapshot sample_compare (store (taskTree w)))))
     (processEvent sample_parse sample_compare sample_querySelector sample_rename sample_widget)
   = Some (Some ''P'')"
  by code_simp

end
